theory Spec2Isabelle
  imports Main "HOL-Library.Word"
begin

section \<open>Go integers and run-time panics\<close>

text \<open>
  Go's \<open>int\<close> is modelled by HOL's \<open>int\<close> with the 64-bit two's complement
  wrap-around written out where the source does arithmetic on it.  A run-time panic of
  the source is a value of type \<open>panic\<close>; a function that may panic returns
  \<open>panic + 'a\<close>.
\<close>

definition wrap64 :: "int \<Rightarrow> int" where
  "wrap64 x = (x + 2 ^ 63) mod 2 ^ 64 - 2 ^ 63"

datatype panic =
    DivideByZero
  | NilDereference
  | IndexOutOfRange nat nat
  | InterfaceConversion string
  | ForeignPanic string

definition go_mul :: "int \<Rightarrow> int \<Rightarrow> int" where
  "go_mul a b = wrap64 (a * b)"

definition go_div :: "int \<Rightarrow> int \<Rightarrow> panic + int" where
  "go_div a b =
     (if b = 0 then Inl DivideByZero
      else Inr (wrap64 (sgn a * sgn b * (\<bar>a\<bar> div \<bar>b\<bar>))))"

section \<open>The flow graph: datasets and steps\<close>

text \<open>
  A \<open>*Dataset\<close> is a reference into the dataset store of the flow, a \<open>*Step\<close> an index
  into the flow's step list.  Of a dataset the source reads and writes \<open>Shards\<close> (only
  its length is used), \<open>IsPartitionedBy\<close> and \<open>Step\<close>.
\<close>

type_synonym dataset_ref = nat
type_synonym step_ref = nat

datatype Instruction =
    RoundRobinInstr
  | ScatterPartitions "int list"
  | CollectPartitions

datatype NetworkType =
    OneShardToAllShard
  | OneShardToEveryNShard int
  | LinkedNToOneShard int
  | AllShardToOne

record Dataset =
  Shards :: "nat list"
  IsPartitionedBy :: "int list"
  Step :: "step_ref option"

record Step =
  Name :: string
  Network :: NetworkType
  InputDataset :: dataset_ref
  OutputDataset :: "dataset_ref option"
  Instr :: "Instruction option"
  IsOnDriverSide :: bool

record Flow =
  Datasets :: "dataset_ref \<Rightarrow> Dataset"
  NextDataset :: dataset_ref
  Steps :: "Step list"

text \<open>
  Modelled from the spec: \<open>Flow.newNextDataset\<close> is not among the source files.  The
  spec (4.1): ``allocates a Dataset with the given shard count and empty partition key;
  pure allocation, no failure mode''.  The new dataset is stored at the next free
  reference; a count below zero allocates no shard.
\<close>

definition newNextDataset :: "int \<Rightarrow> Flow \<Rightarrow> dataset_ref \<times> Flow" where
  "newNextDataset shardSize fl =
     (let r = NextDataset fl;
          ds = \<lparr>Shards = [0..<nat shardSize], IsPartitionedBy = [], Step = None\<rparr>
      in (r, fl\<lparr>Datasets := (Datasets fl)(r := ds), NextDataset := Suc r\<rparr>))"

text \<open>
  Modelled from the spec: the graph-mutation primitives \<open>Flow.AddOneToAllStep\<close>,
  \<open>AddOneToEveryNStep\<close>, \<open>AddLinkedNToOneStep\<close> and \<open>AddAllToOneStep\<close> are not
  among the source files.  The spec (4.1): ``wires a new step'', ``mutates the graph by
  appending the step; does not execute anything''.  Each call appends exactly one step
  of the named fan-out shape and makes it the producing step of the output dataset.
  The call sites in the source bind a single \<open>*Step\<close> result and handle no error, and
  the spec gives the consistency of a shape with the shard counts by one example only:
  the rejection of an inconsistent shape (``ShapeMismatch'') is not part of the model.
\<close>

definition addStep ::
  "NetworkType \<Rightarrow> dataset_ref \<Rightarrow> dataset_ref option \<Rightarrow> Flow \<Rightarrow> step_ref \<times> Flow" where
  "addStep shape input output fl =
     (let sid = length (Steps fl);
          st = \<lparr>Name = [], Network = shape, InputDataset = input,
                OutputDataset = output, Instr = None, IsOnDriverSide = False\<rparr>;
          dss = (case output of
                   None \<Rightarrow> Datasets fl
                 | Some r \<Rightarrow> (Datasets fl)(r := (Datasets fl r)\<lparr>Step := Some sid\<rparr>))
      in (sid, fl\<lparr>Datasets := dss, Steps := Steps fl @ [st]\<rparr>))"

text \<open>Modelled from the spec: \<open>Flow.AddOneToAllStep\<close>, the all-inputs-to-all-outputs shape (4.2).\<close>

definition AddOneToAllStep :: "dataset_ref \<Rightarrow> dataset_ref \<Rightarrow> Flow \<Rightarrow> step_ref \<times> Flow" where
  "AddOneToAllStep input output fl = addStep OneShardToAllShard input (Some output) fl"

text \<open>Modelled from the spec: \<open>Flow.AddOneToEveryNStep\<close>, the 1-to-N shape of the scatter (4.3).\<close>

definition AddOneToEveryNStep ::
  "dataset_ref \<Rightarrow> int \<Rightarrow> dataset_ref \<Rightarrow> Flow \<Rightarrow> step_ref \<times> Flow" where
  "AddOneToEveryNStep input n output fl =
     addStep (OneShardToEveryNShard n) input (Some output) fl"

text \<open>
  Modelled from the spec: \<open>Flow.AddLinkedNToOneStep\<close>, the linked-N-to-one shape of the
  collect, with its group size (4.3).
\<close>

definition AddLinkedNToOneStep ::
  "dataset_ref \<Rightarrow> int \<Rightarrow> dataset_ref \<Rightarrow> Flow \<Rightarrow> step_ref \<times> Flow" where
  "AddLinkedNToOneStep input m output fl =
     addStep (LinkedNToOneShard m) input (Some output) fl"

text \<open>Modelled from the spec: \<open>Flow.AddAllToOneStep\<close>, the all-inputs terminal shape (4.4).\<close>

definition AddAllToOneStep ::
  "dataset_ref \<Rightarrow> dataset_ref option \<Rightarrow> Flow \<Rightarrow> step_ref \<times> Flow" where
  "AddAllToOneStep input output fl = addStep AllShardToOne input output fl"

text \<open>
  Modelled from the spec: \<open>Step.SetInstruction\<close> is not among the source files; it
  attaches the name and the instruction to the step (spec 3, ``Step'').
\<close>

definition SetInstruction :: "step_ref \<Rightarrow> string \<Rightarrow> Instruction \<Rightarrow> Flow \<Rightarrow> Flow" where
  "SetInstruction sid name ins fl =
     fl\<lparr>Steps := (Steps fl)[sid := (Steps fl ! sid)\<lparr>Name := name, Instr := Some ins\<rparr>]\<rparr>"

definition setIsPartitionedBy :: "dataset_ref \<Rightarrow> int list \<Rightarrow> Flow \<Rightarrow> Flow" where
  "setIsPartitionedBy r indexes fl =
     fl\<lparr>Datasets := (Datasets fl)(r := (Datasets fl r)\<lparr>IsPartitionedBy := indexes\<rparr>)\<rparr>"

definition lenShards :: "Flow \<Rightarrow> dataset_ref \<Rightarrow> nat" where
  "lenShards fl d = length (Shards (Datasets fl d))"

section \<open>RoundRobin and Partition\<close>

definition RoundRobin :: "dataset_ref \<Rightarrow> string \<Rightarrow> int \<Rightarrow> Flow \<Rightarrow> dataset_ref \<times> Flow" where
  "RoundRobin d name shard fl =
     (if int (lenShards fl d) = shard then (d, fl)
      else
        (let (ret, fl1) = newNextDataset shard fl;
             (step, fl2) = AddOneToAllStep d ret fl1;
             fl3 = SetInstruction step name RoundRobinInstr fl2
         in (ret, fl3)))"

text \<open>
  \<open>intArrayEquals\<close>: the lengths are compared first, then the loop over \<open>a\<close> returns
  false at the first index where the two differ.  The loop runs on lists of equal
  length only, so its second equation (\<open>b\<close> exhausted before \<open>a\<close>) is never reached.
\<close>

fun intArrayEquals_loop :: "int list \<Rightarrow> int list \<Rightarrow> bool" where
  "intArrayEquals_loop [] b = True"
| "intArrayEquals_loop (v # a) [] = False"
| "intArrayEquals_loop (v # a) (w # b) = (if v \<noteq> w then False else intArrayEquals_loop a b)"

definition intArrayEquals :: "int list \<Rightarrow> int list \<Rightarrow> bool" where
  "intArrayEquals a b = (if length a \<noteq> length b then False else intArrayEquals_loop a b)"

definition partition_scatter ::
  "dataset_ref \<Rightarrow> string \<Rightarrow> int \<Rightarrow> int list \<Rightarrow> Flow \<Rightarrow> dataset_ref \<times> Flow" where
  "partition_scatter d name shardCount indexes fl =
     (let (ret, fl1) = newNextDataset (go_mul (int (lenShards fl d)) shardCount) fl;
          fl2 = setIsPartitionedBy ret indexes fl1;
          (step, fl3) = AddOneToEveryNStep d shardCount ret fl2;
          fl4 = SetInstruction step name (ScatterPartitions indexes) fl3
      in (ret, fl4))"

definition partition_collect ::
  "dataset_ref \<Rightarrow> string \<Rightarrow> int \<Rightarrow> int list \<Rightarrow> Flow \<Rightarrow> panic + dataset_ref \<times> Flow" where
  "partition_collect d name shardCount indexes fl =
     (let (ret, fl1) = newNextDataset shardCount fl;
          fl2 = setIsPartitionedBy ret indexes fl1
      in case go_div (int (lenShards fl2 d)) shardCount of
           Inl p \<Rightarrow> Inl p
         | Inr m \<Rightarrow>
             (let (step, fl3) = AddLinkedNToOneStep d m ret fl2;
                  fl4 = SetInstruction step name CollectPartitions fl3
              in Inr (ret, fl4)))"

text \<open>
  \<open>Partition\<close>; \<open>indexes\<close> is the value of \<open>sortOption.Indexes()\<close>, whose source is
  not part of the files.
\<close>

definition Partition ::
  "dataset_ref \<Rightarrow> string \<Rightarrow> int \<Rightarrow> int list \<Rightarrow> Flow \<Rightarrow> panic + dataset_ref \<times> Flow" where
  "Partition d name shard indexes fl =
     (if intArrayEquals (IsPartitionedBy (Datasets fl d)) indexes \<and> shard = int (lenShards fl d)
      then Inr (d, fl)
      else if 1 = lenShards fl d \<and> shard = 1 then Inr (d, fl)
      else
        (let (ret, fl1) = partition_scatter d name shard indexes fl
         in if shard > 1
            then (case partition_collect ret name shard indexes fl1 of
                    Inl p \<Rightarrow> Inl p
                  | Inr (ret', fl2) \<Rightarrow> Inr (ret', setIsPartitionedBy ret' indexes fl2))
            else Inr (ret, setIsPartitionedBy ret indexes fl1)))"

text \<open>The two guards under which \<open>Partition\<close> returns \<open>d\<close> at once.\<close>

definition Partition_short_circuits :: "dataset_ref \<Rightarrow> int \<Rightarrow> int list \<Rightarrow> Flow \<Rightarrow> bool" where
  "Partition_short_circuits d shard indexes fl \<longleftrightarrow>
     (intArrayEquals (IsPartitionedBy (Datasets fl d)) indexes \<and> shard = int (lenShards fl d)) \<or>
     (1 = lenShards fl d \<and> shard = 1)"

text \<open>A flow holding one dataset (reference 0) of two shards and no step, for evaluation.\<close>

definition flowA :: Flow where
  "flowA = \<lparr>Datasets = (\<lambda>_. \<lparr>Shards = [], IsPartitionedBy = [], Step = None\<rparr>)
                (0 := \<lparr>Shards = [0, 1], IsPartitionedBy = [], Step = None\<rparr>),
            NextDataset = 1, Steps = []\<rparr>"

text \<open>\<open>flowA\<close> with one scatter step from dataset 0 to a new dataset 1 of two shards.\<close>

definition flowA1 :: Flow where
  "flowA1 = \<lparr>Datasets = (Datasets flowA)
                (1 := \<lparr>Shards = [0, 1], IsPartitionedBy = [1], Step = Some 0\<rparr>),
             NextDataset = 2,
             Steps = [\<lparr>Name = ''p'', Network = OneShardToEveryNShard 1, InputDataset = 0,
                       OutputDataset = Some 1, Instr = Some (ScatterPartitions [1]),
                       IsOnDriverSide = False\<rparr>]\<rparr>"

text \<open>\<open>flowA1\<close> with a second scatter step, from dataset 1 to a new dataset 2 of two shards.\<close>

definition flowA2 :: Flow where
  "flowA2 = \<lparr>Datasets = (Datasets flowA1)
                (2 := \<lparr>Shards = [0, 1], IsPartitionedBy = [1], Step = Some 1\<rparr>),
             NextDataset = 3,
             Steps = Steps flowA1 @
                     [\<lparr>Name = ''p'', Network = OneShardToEveryNShard 1, InputDataset = 1,
                       OutputDataset = Some 2, Instr = Some (ScatterPartitions [1]),
                       IsOnDriverSide = False\<rparr>]\<rparr>"

section \<open>Coercion of a dynamic value into a destination slot\<close>

text \<open>
  \<open>src\<close> and \<open>dst\<close> are \<open>interface{}\<close> values.  Of \<open>src\<close> the source inspects the
  dynamic type only in the assertions \<open>src.([]byte)\<close> and \<open>src.(bool)\<close>; of \<open>dst\<close>
  it distinguishes a pointer to one of fifteen scalar types (possibly a nil pointer),
  the nil interface, any other pointer, and a value that is not a pointer (carrying
  its type name, printed by \<open>%T\<close>).  Floating point values are kept as bit patterns.
\<close>

type_synonym byte = "8 word"
type_synonym addr = nat

datatype go_value =
    VNil
  | VBool bool
  | VString string
  | VBytes "byte list"
  | VInt64 "64 word"
  | VUint64 "64 word"
  | VFloat64 "64 word"
  | VOther string

datatype slot_kind =
    KString | KBytes
  | KInt | KInt8 | KInt16 | KInt32 | KInt64
  | KUint | KUint8 | KUint16 | KUint32 | KUint64
  | KBool | KFloat32 | KFloat64

datatype dest =
    DNil
  | DPtr slot_kind "addr option"
  | DPtrOther "addr option"
  | DNonPtr string

datatype slot_value =
    SString string | SBytes "byte list"
  | SInt "64 word" | SInt8 "8 word" | SInt16 "16 word" | SInt32 "32 word" | SInt64 "64 word"
  | SUint "64 word" | SUint8 "8 word" | SUint16 "16 word" | SUint32 "32 word" | SUint64 "64 word"
  | SBool bool | SFloat32 "32 word" | SFloat64 "64 word"

type_synonym store = "addr \<rightharpoonup> slot_value"

datatype go_error = ErrorString string

datatype outcome = Return "go_error option" | Panic panic

text \<open>
  The helpers \<open>gio.ToString\<close>, \<open>gio.ToInt64\<close> and \<open>gio.ToFloat64\<close> are not among the
  source files: they are parameters.  Each returns a value (the call sites use the
  result directly, there is no error result) or panics.  \<open>Float32\<close> is Go's conversion
  \<open>float32(x)\<close> on bit patterns.
\<close>

record gio =
  ToString :: "go_value \<Rightarrow> panic + string"
  ToInt64 :: "go_value \<Rightarrow> panic + 64 word"
  ToFloat64 :: "go_value \<Rightarrow> panic + 64 word"
  Float32 :: "64 word \<Rightarrow> 32 word"

definition assert_bytes :: "go_value \<Rightarrow> panic + byte list" where
  "assert_bytes src =
     (case src of VBytes b \<Rightarrow> Inr b | _ \<Rightarrow> Inl (InterfaceConversion ''[]uint8''))"

definition assert_bool :: "go_value \<Rightarrow> panic + bool" where
  "assert_bool src =
     (case src of VBool b \<Rightarrow> Inr b | _ \<Rightarrow> Inl (InterfaceConversion ''bool''))"

text \<open>The right-hand side of each arm of the type switch; integer conversions keep the low bits.\<close>

fun coerce :: "gio \<Rightarrow> slot_kind \<Rightarrow> go_value \<Rightarrow> panic + slot_value" where
  "coerce g KString src = map_sum id SString (ToString g src)"
| "coerce g KBytes src = map_sum id SBytes (assert_bytes src)"
| "coerce g KInt src = map_sum id SInt (ToInt64 g src)"
| "coerce g KInt8 src = map_sum id (\<lambda>x. SInt8 (ucast x)) (ToInt64 g src)"
| "coerce g KInt16 src = map_sum id (\<lambda>x. SInt16 (ucast x)) (ToInt64 g src)"
| "coerce g KInt32 src = map_sum id (\<lambda>x. SInt32 (ucast x)) (ToInt64 g src)"
| "coerce g KInt64 src = map_sum id SInt64 (ToInt64 g src)"
| "coerce g KUint src = map_sum id SUint (ToInt64 g src)"
| "coerce g KUint8 src = map_sum id (\<lambda>x. SUint8 (ucast x)) (ToInt64 g src)"
| "coerce g KUint16 src = map_sum id (\<lambda>x. SUint16 (ucast x)) (ToInt64 g src)"
| "coerce g KUint32 src = map_sum id (\<lambda>x. SUint32 (ucast x)) (ToInt64 g src)"
| "coerce g KUint64 src = map_sum id SUint64 (ToInt64 g src)"
| "coerce g KBool src = map_sum id SBool (assert_bool src)"
| "coerce g KFloat32 src = map_sum id (\<lambda>x. SFloat32 (Float32 g x)) (ToFloat64 g src)"
| "coerce g KFloat64 src = map_sum id SFloat64 (ToFloat64 g src)"

text \<open>
  The type switch: the right-hand side is evaluated first, then the store through the
  pointer (a nil pointer panics).  There is no default arm: any other \<open>dst\<close> falls
  through with nothing assigned.
\<close>

definition type_switch :: "gio \<Rightarrow> go_value \<Rightarrow> dest \<Rightarrow> store \<Rightarrow> panic + store" where
  "type_switch g src dst st =
     (case dst of
        DPtr k p \<Rightarrow>
          (case coerce g k src of
             Inl pn \<Rightarrow> Inl pn
           | Inr v \<Rightarrow> (case p of None \<Rightarrow> Inl NilDereference | Some a \<Rightarrow> Inr (st(a \<mapsto> v))))
      | _ \<Rightarrow> Inr st)"

text \<open>The checks after the switch: \<open>reflect.ValueOf(dst)\<close> invalid, then its kind not a pointer.\<close>

definition reflect_check :: "dest \<Rightarrow> go_error option" where
  "reflect_check dst =
     (case dst of
        DNil \<Rightarrow> Some (ErrorString ''setValueTo nil'')
      | DNonPtr ty \<Rightarrow> Some (ErrorString (''setValueTo to nonsettable '' @ ty))
      | _ \<Rightarrow> None)"

definition setValueTo :: "gio \<Rightarrow> go_value \<Rightarrow> dest \<Rightarrow> store \<Rightarrow> outcome \<times> store" where
  "setValueTo g src dst st =
     (case type_switch g src dst st of
        Inl pn \<Rightarrow> (Panic pn, st)
      | Inr st' \<Rightarrow> (Return (reflect_check dst), st'))"

section \<open>SaveFirstRowTo: the two callbacks\<close>

record Row =
  K :: "go_value list"
  V :: "go_value list"
  T :: int

definition go_index :: "'a list \<Rightarrow> nat \<Rightarrow> panic + 'a" where
  "go_index xs i = (if i < length xs then Inr (xs ! i) else Inl (IndexOutOfRange i (length xs)))"

text \<open>
  One \<open>for _, v := range\<close> loop of the structured branch: \<open>Inr counter\<close> when the loop
  ran to its end, \<open>Inl\<close> the outcome when it returned an error or panicked.
\<close>

fun assign_fields ::
  "gio \<Rightarrow> go_value list \<Rightarrow> dest list \<Rightarrow> nat \<Rightarrow> store \<Rightarrow> (outcome + nat) \<times> store" where
  "assign_fields g [] decodedObjects counter st = (Inr counter, st)"
| "assign_fields g (v # vs) decodedObjects counter st =
     (case go_index decodedObjects counter of
        Inl pn \<Rightarrow> (Inl (Panic pn), st)
      | Inr dst \<Rightarrow>
          (case setValueTo g v dst st of
             (Return None, st') \<Rightarrow> assign_fields g vs decodedObjects (Suc counter) st'
           | (oc, st') \<Rightarrow> (Inl oc, st')))"

text \<open>
  The callback given to \<open>util.TakeMessage\<close>: \<open>saveDecodedRow\<close> is its branch for a
  decoded row.  \<open>util.DecodeRow\<close> is not among the source files and is a parameter.
\<close>

definition saveDecodedRow :: "gio \<Rightarrow> Row \<Rightarrow> dest list \<Rightarrow> store \<Rightarrow> outcome \<times> store" where
  "saveDecodedRow g row decodedObjects st =
     (case assign_fields g (K row) decodedObjects 0 st of
        (Inl oc, st1) \<Rightarrow> (oc, st1)
      | (Inr counter, st1) \<Rightarrow>
          (case assign_fields g (V row) decodedObjects counter st1 of
             (Inl oc, st2) \<Rightarrow> (oc, st2)
           | (Inr _, st2) \<Rightarrow> (Return None, st2)))"

definition saveRow ::
  "gio \<Rightarrow> (byte list \<Rightarrow> go_error + Row) \<Rightarrow> dest list \<Rightarrow> byte list \<Rightarrow> store \<Rightarrow> outcome \<times> store" where
  "saveRow g DecodeRow decodedObjects encodedBytes st =
     (case DecodeRow encodedBytes of
        Inl err \<Rightarrow> (Return (Some err), st)
      | Inr row \<Rightarrow> saveDecodedRow g row decodedObjects st)"

text \<open>The callback given to \<open>util.TakeTsv\<close> in the pipe branch; \<open>i\<close> is the loop index.\<close>

fun saveTsv :: "string list \<Rightarrow> dest list \<Rightarrow> nat \<Rightarrow> store \<Rightarrow> outcome \<times> store" where
  "saveTsv args [] i st = (Return None, st)"
| "saveTsv args (ob # obs) i st =
     (if i \<ge> length args then (Return None, st)
      else
        (case ob of
           DPtr KString p \<Rightarrow>
             (case go_index args i of
                Inl pn \<Rightarrow> (Panic pn, st)
              | Inr a \<Rightarrow>
                  (case p of
                     None \<Rightarrow> (Panic NilDereference, st)
                   | Some ad \<Rightarrow> saveTsv args obs (Suc i) (st(ad \<mapsto> SString a))))
         | _ \<Rightarrow> (Return (Some (ErrorString ''Should save to *string.'')), st)))"

text \<open>
  A stand-in for the absent \<open>gio\<close> helpers, for evaluating inputs on which the result
  does not depend on them.
\<close>

definition gio0 :: gio where
  "gio0 = \<lparr>ToString = (\<lambda>_. Inl (ForeignPanic ''gio.ToString'')),
           ToInt64 = (\<lambda>_. Inl (ForeignPanic ''gio.ToInt64'')),
           ToFloat64 = (\<lambda>_. Inl (ForeignPanic ''gio.ToFloat64'')),
           Float32 = (\<lambda>_. 0)\<rparr>"

section \<open>Output: the driver-side step function\<close>

text \<open>
  \<open>Output\<close> adds a driver-side all-to-one step named ``Output'' and returns \<open>d\<close>; the
  step's function is run later by the execution runtime.
\<close>

definition Output :: "dataset_ref \<Rightarrow> Flow \<Rightarrow> dataset_ref \<times> Flow" where
  "Output d fl =
     (let (step, fl1) = AddAllToOneStep d None fl;
          fl2 = fl1\<lparr>Steps := (Steps fl1)[step := (Steps fl1 ! step)
                   \<lparr>IsOnDriverSide := True, Name := ''Output''\<rparr>]\<rparr>
      in (d, fl2))"

text \<open>
  The step function, for \<open>n = len(readers)\<close> and with \<open>f i\<close> the value the handler
  returns on reader \<open>i\<close>.  The main goroutine first starts one goroutine per reader, in
  index order, then receives from \<open>errChan\<close> up to \<open>n\<close> times and returns at the first
  non-nil value, and returns nil after \<open>n\<close> nil values.  Goroutine \<open>i\<close> sends \<open>f i\<close> on
  \<open>errChan\<close> once, when the handler has returned.  \<open>errChan\<close> is a buffered channel of
  capacity \<open>n\<close>: a first-in first-out queue; a send blocks while the queue is full, a
  receive blocks while it is empty.  A scheduler picks which goroutine takes the next
  step; a blocked goroutine cannot take one.

  \<open>sent\<close> lists the goroutines that have sent, in the order of their sends (a goroutine
  sends once).  Each queued value is tagged with the index of its sender and \<open>drained\<close>
  records the tags in the order of the receives; no step reads a tag or \<open>drained\<close>.
  The message printed to standard error is left out.
\<close>

record agg_state =
  spawned :: nat
  errChan :: "(nat \<times> go_error option) list"
  consumed :: nat
  result :: "go_error option option"
  sent :: "nat list"
  drained :: "nat list"

datatype goroutine = Main | Worker nat

definition agg_init :: agg_state where
  "agg_init = \<lparr>spawned = 0, errChan = [], consumed = 0, result = None, sent = [], drained = []\<rparr>"

fun step :: "(nat \<Rightarrow> go_error option) \<Rightarrow> nat \<Rightarrow> goroutine \<Rightarrow> agg_state \<Rightarrow> agg_state option" where
  "step f n Main s =
     (if result s \<noteq> None then None
      else if spawned s < n then Some (s\<lparr>spawned := Suc (spawned s)\<rparr>)
      else if consumed s < n then
        (case errChan s of
           [] \<Rightarrow> None
         | (i, err) # rest \<Rightarrow>
             (case err of
                Some e \<Rightarrow>
                  Some (s\<lparr>errChan := rest, result := Some (Some e), drained := drained s @ [i]\<rparr>)
              | None \<Rightarrow>
                  Some (s\<lparr>errChan := rest, consumed := Suc (consumed s),
                          drained := drained s @ [i]\<rparr>)))
      else Some (s\<lparr>result := Some None\<rparr>))"
| "step f n (Worker i) s =
     (if i < spawned s \<and> i \<notin> set (sent s) \<and> length (errChan s) < n
      then Some (s\<lparr>errChan := errChan s @ [(i, f i)], sent := sent s @ [i]\<rparr>)
      else None)"

text \<open>An execution under a schedule; \<open>None\<close> when the schedule picks a goroutine that cannot step.\<close>

fun run :: "(nat \<Rightarrow> go_error option) \<Rightarrow> nat \<Rightarrow> goroutine list \<Rightarrow> agg_state \<Rightarrow> agg_state option" where
  "run f n [] s = Some s"
| "run f n (g # gs) s = (case step f n g s of None \<Rightarrow> None | Some s' \<Rightarrow> run f n gs s')"

text \<open>A handler that fails on shard 1 only, for evaluation.\<close>

definition handlerA :: "nat \<Rightarrow> go_error option" where
  "handlerA i = (if i = 1 then Some (ErrorString ''failed'') else None)"

text \<open>The invariant of the executions, used in the proofs below.\<close>

definition agg_inv :: "(nat \<Rightarrow> go_error option) \<Rightarrow> nat \<Rightarrow> agg_state \<Rightarrow> bool" where
  "agg_inv f n s \<longleftrightarrow>
     spawned s \<le> n \<and> distinct (sent s) \<and> (\<forall>i \<in> set (sent s). i < spawned s) \<and>
     sent s = drained s @ map fst (errChan s) \<and>
     (\<forall>x \<in> set (errChan s). snd x = f (fst x)) \<and>
     consumed s \<le> n \<and>
     (case result s of
        None \<Rightarrow> length (drained s) = consumed s \<and> (\<forall>i \<in> set (drained s). f i = None)
      | Some None \<Rightarrow> length (drained s) = n \<and> (\<forall>i \<in> set (drained s). f i = None)
      | Some (Some e) \<Rightarrow>
          drained s \<noteq> [] \<and> f (last (drained s)) = Some e \<and>
          (\<forall>i \<in> set (butlast (drained s)). f i = None))"

section \<open>Properties of RoundRobin and Partition\<close>

lemma wrap64_id: "- (2 ^ 63) \<le> x \<Longrightarrow> x < 2 ^ 63 \<Longrightarrow> wrap64 x = x"
  unfolding wrap64_def by (simp add: mod_pos_pos_trivial)

lemma go_mul_nat: "0 \<le> a \<Longrightarrow> 0 \<le> b \<Longrightarrow> a * b < 2 ^ 63 \<Longrightarrow> go_mul a b = a * b"
proof -
  assume "0 \<le> a" "0 \<le> b" and r: "a * b < 2 ^ 63"
  then have "0 \<le> a * b" by simp
  then have "- (2 ^ 63) \<le> a * b" by (rule order_trans[rotated]) simp
  from this r show ?thesis unfolding go_mul_def by (rule wrap64_id)
qed

lemma go_div_exact: "0 \<le> a \<Longrightarrow> 0 < b \<Longrightarrow> a < 2 ^ 63 \<Longrightarrow> go_div (a * b) b = Inr a"
proof -
  assume a: "0 \<le> a" and b: "0 < b" and r: "a < 2 ^ 63"
  have "sgn (a * b) * sgn b * (\<bar>a * b\<bar> div \<bar>b\<bar>) = a"
  proof (cases "a = 0")
    case True
    then show ?thesis by simp
  next
    case False
    with a b have "0 < a * b" by simp
    with a b show ?thesis by simp
  qed
  moreover from a r have "wrap64 a = a" by (intro wrap64_id) linarith+
  ultimately show ?thesis using b
    by (simp add: go_div_def)
qed

lemma go_div_nonzero: "b \<noteq> 0 \<Longrightarrow> \<exists>m. go_div a b = Inr m"
  by (simp add: go_div_def)

lemma intArrayEquals_loop_eq: "length a = length b \<Longrightarrow> intArrayEquals_loop a b = (a = b)"
  by (induction a b rule: intArrayEquals_loop.induct) auto

lemma intArrayEquals_eq: "intArrayEquals a b = (a = b)"
  by (auto simp: intArrayEquals_def intArrayEquals_loop_eq)

lemma short_circuits_iff:
  "Partition_short_circuits d k idx fl \<longleftrightarrow>
     (IsPartitionedBy (Datasets fl d) = idx \<and> k = int (lenShards fl d)) \<or>
     (lenShards fl d = 1 \<and> k = 1)"
  by (auto simp: Partition_short_circuits_def intArrayEquals_eq)

lemmas flow_defs = newNextDataset_def addStep_def AddOneToAllStep_def AddOneToEveryNStep_def
  AddLinkedNToOneStep_def AddAllToOneStep_def SetInstruction_def setIsPartitionedBy_def
  lenShards_def

lemma flowA_simps:
  "lenShards flowA 0 = 2" "IsPartitionedBy (Datasets flowA 0) = []"
  "NextDataset flowA = 1" "Steps flowA = []"
  by (simp_all add: flowA_def lenShards_def)

lemma RoundRobin_new:
  "int (lenShards fl d) \<noteq> k \<Longrightarrow>
   RoundRobin d name k fl =
     (NextDataset fl,
      fl\<lparr>Datasets := (Datasets fl)(NextDataset fl :=
             \<lparr>Shards = [0..<nat k], IsPartitionedBy = [], Step = Some (length (Steps fl))\<rparr>),
         NextDataset := Suc (NextDataset fl),
         Steps := Steps fl @ [\<lparr>Name = name, Network = OneShardToAllShard, InputDataset = d,
              OutputDataset = Some (NextDataset fl), Instr = Some RoundRobinInstr,
              IsOnDriverSide = False\<rparr>]\<rparr>)"
  by (simp add: RoundRobin_def flow_defs Let_def)

lemma partition_scatter_eq:
  "partition_scatter d name k idx fl =
     (NextDataset fl,
      fl\<lparr>Datasets := (Datasets fl)(NextDataset fl :=
             \<lparr>Shards = [0..<nat (go_mul (int (lenShards fl d)) k)], IsPartitionedBy = idx,
              Step = Some (length (Steps fl))\<rparr>),
         NextDataset := Suc (NextDataset fl),
         Steps := Steps fl @ [\<lparr>Name = name, Network = OneShardToEveryNShard k, InputDataset = d,
              OutputDataset = Some (NextDataset fl), Instr = Some (ScatterPartitions idx),
              IsOnDriverSide = False\<rparr>]\<rparr>)"
  by (simp add: partition_scatter_def flow_defs Let_def)

lemma partition_collect_eq:
  "go_div (int (lenShards fl d)) k = Inr m \<Longrightarrow> d \<noteq> NextDataset fl \<Longrightarrow>
   partition_collect d name k idx fl =
     Inr (NextDataset fl,
      fl\<lparr>Datasets := (Datasets fl)(NextDataset fl :=
             \<lparr>Shards = [0..<nat k], IsPartitionedBy = idx,
              Step = Some (length (Steps fl))\<rparr>),
         NextDataset := Suc (NextDataset fl),
         Steps := Steps fl @ [\<lparr>Name = name, Network = LinkedNToOneShard m, InputDataset = d,
              OutputDataset = Some (NextDataset fl), Instr = Some CollectPartitions,
              IsOnDriverSide = False\<rparr>]\<rparr>)"
  by (simp add: partition_collect_def flow_defs Let_def)

lemma Partition_sc:
  "Partition_short_circuits d k idx fl \<Longrightarrow> Partition d name k idx fl = Inr (d, fl)"
  by (auto simp: Partition_def Partition_short_circuits_def)

lemma Partition_single:
  "\<not> Partition_short_circuits d k idx fl \<Longrightarrow> \<not> 1 < k \<Longrightarrow>
   Partition d name k idx fl =
     Inr (NextDataset fl,
      fl\<lparr>Datasets := (Datasets fl)(NextDataset fl :=
             \<lparr>Shards = [0..<nat (go_mul (int (lenShards fl d)) k)], IsPartitionedBy = idx,
              Step = Some (length (Steps fl))\<rparr>),
         NextDataset := Suc (NextDataset fl),
         Steps := Steps fl @ [\<lparr>Name = name, Network = OneShardToEveryNShard k, InputDataset = d,
              OutputDataset = Some (NextDataset fl), Instr = Some (ScatterPartitions idx),
              IsOnDriverSide = False\<rparr>]\<rparr>)"
  by (auto simp: Partition_def Partition_short_circuits_def partition_scatter_eq
      setIsPartitionedBy_def)

lemma Partition_double:
  assumes "\<not> Partition_short_circuits d k idx fl" "1 < k"
    and "go_div (int (nat (go_mul (int (lenShards fl d)) k))) k = Inr m"
  shows "Partition d name k idx fl =
     Inr (Suc (NextDataset fl),
      fl\<lparr>Datasets := (Datasets fl)(NextDataset fl :=
             \<lparr>Shards = [0..<nat (go_mul (int (lenShards fl d)) k)], IsPartitionedBy = idx,
              Step = Some (length (Steps fl))\<rparr>,
             Suc (NextDataset fl) :=
             \<lparr>Shards = [0..<nat k], IsPartitionedBy = idx,
              Step = Some (Suc (length (Steps fl)))\<rparr>),
         NextDataset := Suc (Suc (NextDataset fl)),
         Steps := Steps fl @ [\<lparr>Name = name, Network = OneShardToEveryNShard k, InputDataset = d,
              OutputDataset = Some (NextDataset fl), Instr = Some (ScatterPartitions idx),
              IsOnDriverSide = False\<rparr>,
             \<lparr>Name = name, Network = LinkedNToOneShard m, InputDataset = NextDataset fl,
              OutputDataset = Some (Suc (NextDataset fl)), Instr = Some CollectPartitions,
              IsOnDriverSide = False\<rparr>]\<rparr>)"
proof -
  define fl1 where "fl1 = fl\<lparr>Datasets := (Datasets fl)(NextDataset fl :=
             \<lparr>Shards = [0..<nat (go_mul (int (lenShards fl d)) k)], IsPartitionedBy = idx,
              Step = Some (length (Steps fl))\<rparr>),
         NextDataset := Suc (NextDataset fl),
         Steps := Steps fl @ [\<lparr>Name = name, Network = OneShardToEveryNShard k, InputDataset = d,
              OutputDataset = Some (NextDataset fl), Instr = Some (ScatterPartitions idx),
              IsOnDriverSide = False\<rparr>]\<rparr>"
  define fl2 where "fl2 = fl1\<lparr>Datasets := (Datasets fl1)(NextDataset fl1 :=
             \<lparr>Shards = [0..<nat k], IsPartitionedBy = idx,
              Step = Some (length (Steps fl1))\<rparr>),
         NextDataset := Suc (NextDataset fl1),
         Steps := Steps fl1 @ [\<lparr>Name = name, Network = LinkedNToOneShard m,
              InputDataset = NextDataset fl,
              OutputDataset = Some (NextDataset fl1), Instr = Some CollectPartitions,
              IsOnDriverSide = False\<rparr>]\<rparr>"
  have sc: "partition_scatter d name k idx fl = (NextDataset fl, fl1)"
    by (simp add: partition_scatter_eq fl1_def)
  have len: "lenShards fl1 (NextDataset fl) = nat (go_mul (int (lenShards fl d)) k)"
    by (simp add: fl1_def lenShards_def)
  have nd: "NextDataset fl1 = Suc (NextDataset fl)"
    by (simp add: fl1_def)
  have "go_div (int (lenShards fl1 (NextDataset fl))) k = Inr m"
    using assms(3) by (simp add: len)
  then have col: "partition_collect (NextDataset fl) name k idx fl1 = Inr (NextDataset fl1, fl2)"
    unfolding fl2_def by (rule partition_collect_eq) (simp add: nd)
  have "Partition d name k idx fl =
      (case partition_collect (NextDataset fl) name k idx fl1 of
         Inl p \<Rightarrow> Inl p
       | Inr (ret', fl2) \<Rightarrow> Inr (ret', setIsPartitionedBy ret' idx fl2))"
    using assms(1,2) by (auto simp: Partition_def Partition_short_circuits_def sc)
  also have "\<dots> = Inr (NextDataset fl1, setIsPartitionedBy (NextDataset fl1) idx fl2)"
    unfolding col by simp
  finally show ?thesis
    by (simp add: fl2_def fl1_def setIsPartitionedBy_def)
qed

lemma Partition_adds_steps:
  assumes "\<not> Partition_short_circuits d k idx fl"
  shows "\<exists>ret fl' new. Partition d name k idx fl = Inr (ret, fl') \<and> Steps fl' = Steps fl @ new
     \<and> length new = (if 1 < k then 2 else 1)"
proof (cases "1 < k")
  case True
  then obtain m where "go_div (int (nat (go_mul (int (lenShards fl d)) k))) k = Inr m"
    using go_div_nonzero[of k] by fastforce
  from Partition_double[OF assms True this] True show ?thesis by simp
next
  case False
  from Partition_single[OF assms False] False show ?thesis by simp
qed

text \<open>
  C8. RoundRobin returns the same dataset reference and the same flow (no step is
  created) when the target shard count equals the dataset's shard count; otherwise it
  appends exactly one one-to-all step, with the round-robin instruction, from \<open>d\<close> to a
  newly allocated dataset, which has \<open>k\<close> shards for every shard count \<open>k \<ge> 0\<close>.
\<close>

theorem RoundRobin_identity_or_one_step:
  "(int (lenShards fl d) = k \<longrightarrow> RoundRobin d name k fl = (d, fl)) \<and>
   (int (lenShards fl d) \<noteq> k \<longrightarrow>
      (\<exists>ret fl'. RoundRobin d name k fl = (ret, fl') \<and> ret = NextDataset fl \<and>
         Steps fl' = Steps fl @
           [\<lparr>Name = name, Network = OneShardToAllShard, InputDataset = d,
             OutputDataset = Some ret, Instr = Some RoundRobinInstr,
             IsOnDriverSide = False\<rparr>] \<and>
         (0 \<le> k \<longrightarrow> int (lenShards fl' ret) = k)))"
proof (intro conjI impI)
  assume "int (lenShards fl d) = k"
  then show "RoundRobin d name k fl = (d, fl)" by (simp add: RoundRobin_def)
next
  assume "int (lenShards fl d) \<noteq> k"
  then show "\<exists>ret fl'. RoundRobin d name k fl = (ret, fl') \<and> ret = NextDataset fl \<and>
         Steps fl' = Steps fl @
           [\<lparr>Name = name, Network = OneShardToAllShard, InputDataset = d,
             OutputDataset = Some ret, Instr = Some RoundRobinInstr,
             IsOnDriverSide = False\<rparr>] \<and>
         (0 \<le> k \<longrightarrow> int (lenShards fl' ret) = k)"
    by (simp add: RoundRobin_new lenShards_def)
qed

theorem RoundRobin_identity_or_one_step_witness:
  "RoundRobin 0 ''rr'' 2 flowA = (0, flowA) \<and>
   (\<exists>ret fl'. RoundRobin 0 ''rr'' 3 flowA = (ret, fl') \<and> ret = 1 \<and>
      Steps fl' =
        [\<lparr>Name = ''rr'', Network = OneShardToAllShard, InputDataset = 0,
          OutputDataset = Some ret, Instr = Some RoundRobinInstr,
          IsOnDriverSide = False\<rparr>] \<and>
      lenShards fl' ret = 3)"
  using RoundRobin_identity_or_one_step [of flowA 0 2 "''rr''"]
    RoundRobin_identity_or_one_step [of flowA 0 3 "''rr''"]
  by (simp add: flowA_simps)

text \<open>
  C9. When RoundRobin does not short-circuit, the dataset it returns has an empty
  partition key, whatever the partition key of the input dataset.
\<close>

theorem RoundRobin_clears_partition_key:
  "int (lenShards fl d) \<noteq> k \<Longrightarrow>
   IsPartitionedBy (Datasets (snd (RoundRobin d name k fl)) (fst (RoundRobin d name k fl))) = []"
  by (simp add: RoundRobin_new)

theorem RoundRobin_clears_partition_key_witness:
  "IsPartitionedBy (Datasets (setIsPartitionedBy 0 [1] flowA) 0) = [1] \<and>
   int (lenShards (setIsPartitionedBy 0 [1] flowA) 0) \<noteq> 3 \<and>
   IsPartitionedBy (Datasets (snd (RoundRobin 0 ''rr'' 3 (setIsPartitionedBy 0 [1] flowA)))
      (fst (RoundRobin 0 ''rr'' 3 (setIsPartitionedBy 0 [1] flowA)))) = []"
proof -
  have h: "int (lenShards (setIsPartitionedBy 0 [1] flowA) 0) \<noteq> 3"
    by (simp add: setIsPartitionedBy_def flowA_def lenShards_def)
  show ?thesis
    using h RoundRobin_clears_partition_key [OF h, of "''rr''"]
    by (simp add: setIsPartitionedBy_def flowA_def)
qed

text \<open>
  C7. Partition returns its input dataset and the unchanged flow exactly when the
  dataset's partition key equals the key indexes and its shard count equals the target,
  or its shard count is 1 and the target is 1; in every other case it returns normally
  with at least one step appended to the flow.
\<close>

theorem Partition_short_circuit_exactly:
  "(Partition d name k idx fl = Inr (d, fl)) =
     ((IsPartitionedBy (Datasets fl d) = idx \<and> k = int (lenShards fl d)) \<or>
      (lenShards fl d = 1 \<and> k = 1))
   \<and> (\<not> ((IsPartitionedBy (Datasets fl d) = idx \<and> k = int (lenShards fl d)) \<or>
         (lenShards fl d = 1 \<and> k = 1)) \<longrightarrow>
      (\<exists>ret fl' new. Partition d name k idx fl = Inr (ret, fl') \<and>
         Steps fl' = Steps fl @ new \<and> new \<noteq> []))"
proof (cases "Partition_short_circuits d k idx fl")
  case True
  then show ?thesis using Partition_sc[OF True] by (simp add: short_circuits_iff)
next
  case False
  from Partition_adds_steps[OF False] obtain ret fl' new where
    p: "Partition d name k idx fl = Inr (ret, fl')" and s: "Steps fl' = Steps fl @ new"
    and l: "length new = (if 1 < k then 2 else 1)" by blast
  from l have ne: "new \<noteq> []" by (auto split: if_splits)
  with s have "fl' \<noteq> fl" by auto
  with p have "Partition d name k idx fl \<noteq> Inr (d, fl)" by simp
  with False p s ne show ?thesis unfolding short_circuits_iff[symmetric] by blast
qed

theorem Partition_short_circuit_exactly_witness:
  "Partition 0 ''p'' 2 [] flowA = Inr (0, flowA) \<and>
   Partition 0 ''p'' 2 [1] flowA \<noteq> Inr (0, flowA) \<and>
   (\<exists>ret fl' new. Partition 0 ''p'' 2 [1] flowA = Inr (ret, fl') \<and>
      Steps fl' = Steps flowA @ new \<and> new \<noteq> [])"
  using Partition_short_circuit_exactly [of 0 "''p''" 2 "[]" flowA]
    Partition_short_circuit_exactly [of 0 "''p''" 2 "[1]" flowA]
  by (simp add: flowA_simps)

text \<open>
  C4. For a dataset of \<open>S\<close> shards, a target \<open>k > 1\<close> and key indexes that do not
  short-circuit, with \<open>S * k\<close> in the range of Go's \<open>int\<close>, Partition appends exactly two
  steps: a scatter step (one shard to every \<open>k\<close>) whose output dataset has \<open>S * k\<close>
  shards and partition key \<open>idx\<close>, then a linked-N-to-one collect step of group size
  \<open>S\<close> reading that dataset, whose output, the dataset returned, has \<open>k\<close> shards and
  partition key \<open>idx\<close>.
\<close>

theorem Partition_scatter_then_collect:
  assumes "1 < k"
    and "\<not> (IsPartitionedBy (Datasets fl d) = idx \<and> k = int (lenShards fl d))"
    and "int (lenShards fl d) * k < 2 ^ 63"
  shows "\<exists>scat ret fl'.
     Partition d name k idx fl = Inr (ret, fl') \<and>
     Steps fl' = Steps fl @
       [\<lparr>Name = name, Network = OneShardToEveryNShard k, InputDataset = d,
         OutputDataset = Some scat, Instr = Some (ScatterPartitions idx),
         IsOnDriverSide = False\<rparr>,
        \<lparr>Name = name, Network = LinkedNToOneShard (int (lenShards fl d)), InputDataset = scat,
         OutputDataset = Some ret, Instr = Some CollectPartitions,
         IsOnDriverSide = False\<rparr>] \<and>
     int (lenShards fl' scat) = int (lenShards fl d) * k \<and>
     IsPartitionedBy (Datasets fl' scat) = idx \<and>
     int (lenShards fl' ret) = k \<and>
     IsPartitionedBy (Datasets fl' ret) = idx"
proof -
  let ?S = "int (lenShards fl d)"
  from assms(1,2) have nsc: "\<not> Partition_short_circuits d k idx fl"
    by (auto simp: short_circuits_iff)
  have mul: "go_mul ?S k = ?S * k" using assms(1,3) by (intro go_mul_nat) auto
  have "?S \<le> ?S * k" using assms(1) by (simp add: mult_le_cancel_left1)
  with assms(3) have Sb: "?S < 2 ^ 63" by linarith
  have "go_div (?S * k) k = Inr ?S" using assms(1) Sb by (intro go_div_exact) auto
  moreover have "int (nat (go_mul ?S k)) = ?S * k" using mul assms(1) by simp
  ultimately have dv: "go_div (int (nat (go_mul ?S k))) k = Inr ?S" by simp
  show ?thesis
    unfolding Partition_double[OF nsc assms(1) dv]
    apply (rule exI[of _ "NextDataset fl"])
    apply (rule exI[of _ "Suc (NextDataset fl)"])
    using assms(1) mul
    apply (simp add: lenShards_def)
    done
qed

theorem Partition_scatter_then_collect_witness:
  "\<exists>scat ret fl'.
     Partition 0 ''p'' 3 [1] flowA = Inr (ret, fl') \<and>
     Steps fl' =
       [\<lparr>Name = ''p'', Network = OneShardToEveryNShard 3, InputDataset = 0,
         OutputDataset = Some scat, Instr = Some (ScatterPartitions [1]),
         IsOnDriverSide = False\<rparr>,
        \<lparr>Name = ''p'', Network = LinkedNToOneShard 2, InputDataset = scat,
         OutputDataset = Some ret, Instr = Some CollectPartitions,
         IsOnDriverSide = False\<rparr>] \<and>
     lenShards fl' scat = 6 \<and>
     IsPartitionedBy (Datasets fl' scat) = [1] \<and>
     lenShards fl' ret = 3 \<and>
     IsPartitionedBy (Datasets fl' ret) = [1]"
proof -
  have h1: "(1::int) < 3" by simp
  have h2: "\<not> (IsPartitionedBy (Datasets flowA 0) = [1] \<and> 3 = int (lenShards flowA 0))"
    by (simp add: flowA_simps)
  have h3: "int (lenShards flowA 0) * 3 < 2 ^ 63" by (simp add: flowA_simps)
  from Partition_scatter_then_collect [OF h1 h2 h3, of "''p''"]
  obtain scat ret fl' where *: "Partition 0 ''p'' 3 [1] flowA = Inr (ret, fl')"
     "Steps fl' = Steps flowA @
       [\<lparr>Name = ''p'', Network = OneShardToEveryNShard 3, InputDataset = 0,
         OutputDataset = Some scat, Instr = Some (ScatterPartitions [1]),
         IsOnDriverSide = False\<rparr>,
        \<lparr>Name = ''p'', Network = LinkedNToOneShard (int (lenShards flowA 0)), InputDataset = scat,
         OutputDataset = Some ret, Instr = Some CollectPartitions,
         IsOnDriverSide = False\<rparr>]"
     "int (lenShards fl' scat) = int (lenShards flowA 0) * 3"
     "IsPartitionedBy (Datasets fl' scat) = [1]"
     "int (lenShards fl' ret) = 3"
     "IsPartitionedBy (Datasets fl' ret) = [1]"
    by blast
  from *(3) have "lenShards fl' scat = 6" by (simp add: flowA_simps)
  moreover from *(5) have "lenShards fl' ret = 3" by simp
  ultimately show ?thesis using *(1,2,4,6) by (simp add: flowA_simps)
qed

text \<open>
  C2 (as stated, refuted).  On the two-shard dataset of \<open>flowA\<close> with target 1 the
  first Partition appends a scatter step and returns a new dataset of two shards
  (no collect step follows, the target not being above 1); the second Partition with
  the same arguments on that result does not short-circuit: it appends a second
  scatter step and returns yet another dataset.
\<close>

theorem Partition_twice_counterexample:
  "Partition 0 ''p'' 1 [1] flowA = Inr (1, flowA1) \<and>
   Partition 1 ''p'' 1 [1] flowA1 = Inr (2, flowA2) \<and>
   length (Steps flowA1) = 1 \<and> length (Steps flowA2) = 2 \<and>
   lenShards flowA1 1 = 2"
proof -
  have n0: "\<not> Partition_short_circuits 0 1 [1] flowA"
    by (simp add: short_circuits_iff flowA_simps)
  have n1: "\<not> Partition_short_circuits 1 1 [1] flowA1"
    by (simp add: short_circuits_iff flowA1_def lenShards_def)
  have w: "go_mul 2 1 = 2" by (simp add: go_mul_def wrap64_def)
  have u: "[0..<2] = [0, Suc 0]" by (simp add: upt_rec)
  have a: "Partition 0 ''p'' 1 [1] flowA = Inr (1, flowA1)"
    using Partition_single[OF n0, of "''p''"]
    by (simp add: flowA_simps flowA1_def w u)
  have b: "Partition 1 ''p'' 1 [1] flowA1 = Inr (2, flowA2)"
    using Partition_single[OF n1, of "''p''"]
    by (simp add: flowA2_def flowA1_def lenShards_def w u)
  show ?thesis using a b by (simp add: flowA1_def flowA2_def lenShards_def)
qed

text \<open>
  C2 (amended).  When the target shard count is 0 or greater than 1, or the first call
  itself short-circuits, a second Partition with the same shard count and key indexes on
  the result of the first returns that dataset and the flow unchanged: no step is added,
  shard count and partition key are those of its input.
\<close>

theorem Partition_idempotent:
  assumes "k = 0 \<or> 1 < k \<or>
      (IsPartitionedBy (Datasets fl d) = idx \<and> k = int (lenShards fl d)) \<or>
      (lenShards fl d = 1 \<and> k = 1)"
  shows "\<exists>r fl1. Partition d name k idx fl = Inr (r, fl1) \<and>
           Partition r name k idx fl1 = Inr (r, fl1)"
proof (cases "Partition_short_circuits d k idx fl")
  case True
  then show ?thesis by (simp add: Partition_sc)
next
  case False
  with assms have k: "k = 0 \<or> 1 < k" by (auto simp: short_circuits_iff)
  show ?thesis
  proof (cases "1 < k")
    case True
    then obtain m where m: "go_div (int (nat (go_mul (int (lenShards fl d)) k))) k = Inr m"
      using go_div_nonzero[of k] by fastforce
    show ?thesis unfolding Partition_double[OF False True m]
      using True by (auto intro!: Partition_sc simp: short_circuits_iff lenShards_def)
  next
    case F2: False
    with k have "k = 0" by simp
    show ?thesis unfolding Partition_single[OF False F2]
      using \<open>k = 0\<close>
      by (auto intro!: Partition_sc simp: short_circuits_iff lenShards_def go_mul_def wrap64_def)
  qed
qed

theorem Partition_idempotent_witness:
  "\<exists>r fl1. Partition 0 ''p'' 3 [1] flowA = Inr (r, fl1) \<and>
           Partition r ''p'' 3 [1] fl1 = Inr (r, fl1) \<and> length (Steps fl1) = 2"
proof -
  have h: "(3::int) = 0 \<or> (1::int) < 3 \<or>
      (IsPartitionedBy (Datasets flowA 0) = [1] \<and> 3 = int (lenShards flowA 0)) \<or>
      (lenShards flowA 0 = 1 \<and> (3::int) = 1)" by simp
  from Partition_idempotent [OF h, of "''p''"] obtain r fl1 where
    *: "Partition 0 ''p'' 3 [1] flowA = Inr (r, fl1)" "Partition r ''p'' 3 [1] fl1 = Inr (r, fl1)"
    by blast
  have "\<not> Partition_short_circuits 0 3 [1] flowA"
    by (simp add: short_circuits_iff flowA_simps)
  from Partition_adds_steps[OF this, of "''p''"] *(1) have "length (Steps fl1) = 2"
    by (auto simp: flowA_simps)
  with * show ?thesis by blast
qed

section \<open>Properties of the coercion and of SaveFirstRowTo\<close>

lemma setValueTo_outcome_store_free:
  "fst (setValueTo g src dst st) = fst (setValueTo g src dst st')"
  by (auto simp: setValueTo_def type_switch_def split: dest.splits sum.splits option.splits)

lemma coerce_KBool_mismatch:
  "\<forall>b. src \<noteq> VBool b \<Longrightarrow> coerce g KBool src = Inl (InterfaceConversion ''bool'')"
  by (cases src) (auto simp: assert_bool_def)

lemma coerce_KBytes_mismatch:
  "\<forall>b. src \<noteq> VBytes b \<Longrightarrow> coerce g KBytes src = Inl (InterfaceConversion ''[]uint8'')"
  by (cases src) (auto simp: assert_bytes_def)

lemma setValueTo_DPtr_no_error: "setValueTo g src (DPtr k p) st \<noteq> (Return (Some e), st')"
  by (auto simp: setValueTo_def type_switch_def reflect_check_def split: sum.splits option.splits)

lemma assign_fields_Inr:
  "assign_fields g vs dsts c st = (Inr c', st') \<Longrightarrow> c \<le> length dsts \<Longrightarrow>
   c' = c + length vs \<and> c' \<le> length dsts"
proof (induction vs arbitrary: c st)
  case Nil
  then show ?case by simp
next
  case (Cons v vs)
  from Cons.prems(1) have lt: "c < length dsts"
    by (auto simp: go_index_def split: if_splits)
  from Cons.prems(1) lt obtain st1 where
    "assign_fields g vs dsts (Suc c) st1 = (Inr c', st')"
    by (auto simp: go_index_def split: prod.splits outcome.splits option.splits)
  from Cons.IH[OF this] lt show ?case by simp
qed

lemma assign_fields_Inl:
  "assign_fields g vs dsts c st = (Inl oc, st') \<Longrightarrow> oc \<noteq> Return None"
proof (induction vs arbitrary: c st)
  case Nil
  then show ?case by simp
next
  case (Cons v vs)
  then show ?case
    by (auto simp: go_index_def split: if_splits prod.splits outcome.splits option.splits)
qed


lemma assign_fields_all_ok:
  assumes "\<forall>j < length vs. c + j < length dsts \<longrightarrow>
             fst (setValueTo g (vs ! j) (dsts ! (c + j)) Map.empty) = Return None"
    and "c \<le> length dsts"
  shows "fst (assign_fields g vs dsts c st) =
           (if c + length vs \<le> length dsts then Inr (c + length vs)
            else Inl (Panic (IndexOutOfRange (length dsts) (length dsts))))"
  using assms
proof (induction vs arbitrary: c st)
  case Nil
  then show ?case by simp
next
  case (Cons v vs)
  show ?case
  proof (cases "c < length dsts")
    case False
    with Cons.prems(2) have "c = length dsts" by simp
    then show ?thesis by (simp add: go_index_def)
  next
    case True
    from Cons.prems(1)[rule_format, of 0] True
    have "fst (setValueTo g v (dsts ! c) Map.empty) = Return None" by simp
    then have "fst (setValueTo g v (dsts ! c) st) = Return None"
      using setValueTo_outcome_store_free[of g v "dsts ! c" st Map.empty] by simp
    then obtain st1 where s1: "setValueTo g v (dsts ! c) st = (Return None, st1)"
      by (cases "setValueTo g v (dsts ! c) st") simp
    have "\<forall>j < length vs. Suc c + j < length dsts \<longrightarrow>
             fst (setValueTo g (vs ! j) (dsts ! (Suc c + j)) Map.empty) = Return None"
    proof (intro allI impI)
      fix j assume "j < length vs" "Suc c + j < length dsts"
      with Cons.prems(1)[rule_format, of "Suc j"]
      show "fst (setValueTo g (vs ! j) (dsts ! (Suc c + j)) Map.empty) = Return None" by simp
    qed
    from Cons.IH[OF this, of st1] True
    show ?thesis using s1 True by (simp add: go_index_def)
  qed
qed

lemma saveTsv_no_index_panic: "fst (saveTsv args obs i st) \<noteq> Panic (IndexOutOfRange n m)"
proof (induction obs arbitrary: i st)
  case Nil
  then show ?case by simp
next
  case (Cons ob obs)
  then show ?case
    by (auto simp: go_index_def split: dest.splits slot_kind.splits option.splits)
qed

lemma saveDecodedRow_fst:
  "fst (saveDecodedRow g row dsts st) =
     (case fst (assign_fields g (K row) dsts 0 st) of
        Inl oc \<Rightarrow> oc
      | Inr counter \<Rightarrow>
          (case fst (assign_fields g (V row) dsts counter
                       (snd (assign_fields g (K row) dsts 0 st))) of
             Inl oc \<Rightarrow> oc
           | Inr _ \<Rightarrow> Return None))"
  by (simp add: saveDecodedRow_def split: prod.splits sum.splits)

lemma saveDecodedRow_not_ok:
  assumes "length dsts < length (K row) + length (V row)"
  shows "fst (saveDecodedRow g row dsts st) \<noteq> Return None"
proof (cases "assign_fields g (K row) dsts 0 st")
  case (Pair r1 st1)
  show ?thesis
  proof (cases r1)
    case (Inl oc)
    with Pair assign_fields_Inl[of g "K row" dsts 0 st oc st1] show ?thesis
      by (simp add: saveDecodedRow_def)
  next
    case (Inr c)
    with Pair assign_fields_Inr[of g "K row" dsts 0 st c st1]
    have c: "c = length (K row)" "c \<le> length dsts" by simp_all
    show ?thesis
    proof (cases "assign_fields g (V row) dsts c st1")
      case P2: (Pair r2 st2)
      show ?thesis
      proof (cases r2)
        case I2: (Inl oc)
        with P2 assign_fields_Inl[of g "V row" dsts c st1 oc st2] Pair Inr show ?thesis
          by (simp add: saveDecodedRow_def)
      next
        case I2: (Inr c2)
        with P2 assign_fields_Inr[of g "V row" dsts c st1 c2 st2] c assms show ?thesis
          by simp
      qed
    qed
  qed
qed

lemma saveDecodedRow_index_panic:
  assumes "length dsts < length (K row) + length (V row)"
    and ok: "\<forall>i<length dsts.
           fst (setValueTo g ((K row @ V row) ! i) (dsts ! i) Map.empty) = Return None"
  shows "fst (saveDecodedRow g row dsts st) = Panic (IndexOutOfRange (length dsts) (length dsts))"
proof -
  have k: "\<forall>j < length (K row). 0 + j < length dsts \<longrightarrow>
             fst (setValueTo g (K row ! j) (dsts ! (0 + j)) Map.empty) = Return None"
    using ok by (auto simp: nth_append)
  have kres: "fst (assign_fields g (K row) dsts 0 st) =
           (if 0 + length (K row) \<le> length dsts then Inr (0 + length (K row))
            else Inl (Panic (IndexOutOfRange (length dsts) (length dsts))))"
    by (rule assign_fields_all_ok[OF k]) simp
  show ?thesis
  proof (cases "length (K row) \<le> length dsts")
    case False
    with kres show ?thesis by (simp add: saveDecodedRow_fst)
  next
    case True
    have v: "\<forall>j < length (V row). length (K row) + j < length dsts \<longrightarrow>
             fst (setValueTo g (V row ! j) (dsts ! (length (K row) + j)) Map.empty) = Return None"
    proof (intro allI impI)
      fix j assume "j < length (V row)" "length (K row) + j < length dsts"
      with ok[rule_format, of "length (K row) + j"]
      show "fst (setValueTo g (V row ! j) (dsts ! (length (K row) + j)) Map.empty) = Return None"
        by (simp add: nth_append)
    qed
    have "fst (assign_fields g (V row) dsts (length (K row))
                 (snd (assign_fields g (K row) dsts 0 st))) =
           (if length (K row) + length (V row) \<le> length dsts
            then Inr (length (K row) + length (V row))
            else Inl (Panic (IndexOutOfRange (length dsts) (length dsts))))"
      by (rule assign_fields_all_ok[OF v True])
    with kres True assms(1) show ?thesis by (simp add: saveDecodedRow_fst)
  qed
qed

lemma setValueTo_failure_keeps_store:
  "fst (setValueTo g v d st) \<noteq> Return None \<Longrightarrow> snd (setValueTo g v d st) = st"
  by (auto simp: setValueTo_def type_switch_def reflect_check_def
      split: dest.splits sum.splits option.splits)

lemma assign_fields_step_ok:
  assumes "c < length dsts" "fst (setValueTo g v (dsts ! c) Map.empty) = Return None"
  shows "assign_fields g (v # vs) dsts c st =
           assign_fields g vs dsts (Suc c) (snd (setValueTo g v (dsts ! c) st))"
proof -
  from assms(2) have "fst (setValueTo g v (dsts ! c) st) = Return None"
    using setValueTo_outcome_store_free[of g v "dsts ! c" st Map.empty] by simp
  then obtain st1 where "setValueTo g v (dsts ! c) st = (Return None, st1)"
    by (cases "setValueTo g v (dsts ! c) st") simp
  with assms(1) show ?thesis by (simp add: go_index_def)
qed

lemma assign_fields_step_fail:
  assumes "c < length dsts" "fst (setValueTo g v (dsts ! c) Map.empty) \<noteq> Return None"
  shows "assign_fields g (v # vs) dsts c st =
           (Inl (fst (setValueTo g v (dsts ! c) Map.empty)), st)"
proof -
  let ?oc = "fst (setValueTo g v (dsts ! c) Map.empty)"
  have oc: "fst (setValueTo g v (dsts ! c) st) = ?oc"
    by (rule setValueTo_outcome_store_free)
  with assms(2) have "snd (setValueTo g v (dsts ! c) st) = st"
    by (intro setValueTo_failure_keeps_store) simp
  with oc have eq: "setValueTo g v (dsts ! c) st = (?oc, st)"
    by (cases "setValueTo g v (dsts ! c) st") simp
  show ?thesis
  proof (cases ?oc)
    case (Panic pn)
    with eq assms(1) show ?thesis by (simp add: go_index_def)
  next
    case (Return r)
    with assms(2) obtain e where "r = Some e" by (cases r) auto
    with Return eq assms(1) show ?thesis by (simp add: go_index_def)
  qed
qed

lemma assign_fields_first_failure:
  assumes "i < length vs" "c + i < length dsts"
    and "\<forall>j<i. fst (setValueTo g (vs ! j) (dsts ! (c + j)) Map.empty) = Return None"
    and "fst (setValueTo g (vs ! i) (dsts ! (c + i)) Map.empty) \<noteq> Return None"
  shows "assign_fields g vs dsts c st =
           (Inl (fst (setValueTo g (vs ! i) (dsts ! (c + i)) Map.empty)),
            snd (assign_fields g (take i vs) dsts c st))"
  using assms
proof (induction vs arbitrary: i c st)
  case Nil
  then show ?case by simp
next
  case (Cons v vs)
  show ?case
  proof (cases i)
    case 0
    with Cons.prems show ?thesis
      using assign_fields_step_fail[of c dsts g v vs st] by simp
  next
    case (Suc i')
    from Cons.prems(2) Suc have c: "c < length dsts" by simp
    from Cons.prems(3)[rule_format, of 0] Suc
    have ok: "fst (setValueTo g v (dsts ! c) Map.empty) = Return None" by simp
    let ?st1 = "snd (setValueTo g v (dsts ! c) st)"
    have p1: "i' < length vs" using Cons.prems(1) Suc by simp
    have p2: "Suc c + i' < length dsts" using Cons.prems(2) Suc by simp
    have p3: "\<forall>j<i'. fst (setValueTo g (vs ! j) (dsts ! (Suc c + j)) Map.empty) = Return None"
    proof (intro allI impI)
      fix j assume "j < i'"
      with Cons.prems(3)[rule_format, of "Suc j"] Suc
      show "fst (setValueTo g (vs ! j) (dsts ! (Suc c + j)) Map.empty) = Return None" by simp
    qed
    have p4: "fst (setValueTo g (vs ! i') (dsts ! (Suc c + i')) Map.empty) \<noteq> Return None"
      using Cons.prems(4) Suc by simp
    from Cons.IH[OF p1 p2 p3 p4, of ?st1]
    show ?thesis
      using Suc by (simp add: assign_fields_step_ok[OF c ok] del: assign_fields.simps)
  qed
qed

lemma assign_fields_append:
  "assign_fields g (xs @ ys) dsts c st =
     (case assign_fields g xs dsts c st of
        (Inl oc, st1) \<Rightarrow> (Inl oc, st1)
      | (Inr c', st1) \<Rightarrow> assign_fields g ys dsts c' st1)"
proof (induction xs arbitrary: c st)
  case Nil
  then show ?case by simp
next
  case (Cons x xs)
  then show ?case
    by (simp split: sum.splits prod.splits outcome.splits option.splits)
qed

lemma saveDecodedRow_append:
  "saveDecodedRow g row dsts st =
     (case assign_fields g (K row @ V row) dsts 0 st of
        (Inl oc, st') \<Rightarrow> (oc, st')
      | (Inr _, st') \<Rightarrow> (Return None, st'))"
  by (simp add: saveDecodedRow_def assign_fields_append split: prod.splits sum.splits)

lemma saveDecodedRow_first_failure:
  assumes "i < length (K row @ V row)" "i < length dsts"
    and "\<forall>j<i. fst (setValueTo g ((K row @ V row) ! j) (dsts ! j) Map.empty) = Return None"
    and "fst (setValueTo g ((K row @ V row) ! i) (dsts ! i) Map.empty) \<noteq> Return None"
  shows "saveDecodedRow g row dsts st =
           (fst (setValueTo g ((K row @ V row) ! i) (dsts ! i) Map.empty),
            snd (assign_fields g (take i (K row @ V row)) dsts 0 st))"
  using assign_fields_first_failure[of i "K row @ V row" 0 dsts g st] assms
  by (simp add: saveDecodedRow_append)

lemma setValueTo_coerce_panic:
  "coerce g k src = Inl pn \<Longrightarrow> setValueTo g src (DPtr k p) st = (Panic pn, st)"
  by (simp add: setValueTo_def type_switch_def)

text \<open>
  C5 (the code at the failing input).  For a destination that is a pointer to a type
  outside the fifteen of the switch, \<open>setValueTo\<close> returns nil with nothing assigned;
  the nil interface and a non-pointer destination get an error.
\<close>

theorem setValueTo_pointer_to_other_type:
  "setValueTo g src (DPtrOther p) st = (Return None, st) \<and>
   setValueTo g src DNil st = (Return (Some (ErrorString ''setValueTo nil'')), st) \<and>
   setValueTo g src (DNonPtr ty) st =
     (Return (Some (ErrorString (''setValueTo to nonsettable '' @ ty))), st)"
  by (simp add: setValueTo_def type_switch_def reflect_check_def)

text \<open>
  C6 (as stated, refuted).  Coercing the text value \<open>true\<close> into a \<open>*bool\<close> panics in
  the type assertion; no error is returned.
\<close>

theorem setValueTo_string_into_bool_counterexample:
  "setValueTo gio0 (VString ''true'') (DPtr KBool (Some 0)) Map.empty =
     (Panic (InterfaceConversion ''bool''), Map.empty)"
  by (simp add: setValueTo_def type_switch_def assert_bool_def)

text \<open>
  C6 (amended).  A value that is not a bool coerced into a \<open>*bool\<close>, and a value that is
  not a byte sequence coerced into a \<open>*[]byte\<close>, make \<open>setValueTo\<close> panic in the type
  assertion, with the destination left as it was (no zero value is stored); and with a
  pointer to one of the supported scalar types as destination \<open>setValueTo\<close> returns an
  error for no source value.
\<close>

theorem setValueTo_incompatible_kind_panics:
  "((\<forall>b. src \<noteq> VBool b) \<longrightarrow>
      setValueTo g src (DPtr KBool p) st = (Panic (InterfaceConversion ''bool''), st)) \<and>
   ((\<forall>b. src \<noteq> VBytes b) \<longrightarrow>
      setValueTo g src (DPtr KBytes p) st = (Panic (InterfaceConversion ''[]uint8''), st)) \<and>
   (\<forall>k e st'. setValueTo g src (DPtr k p) st \<noteq> (Return (Some e), st'))"
proof (intro conjI impI allI)
  assume "\<forall>b. src \<noteq> VBool b"
  then show "setValueTo g src (DPtr KBool p) st = (Panic (InterfaceConversion ''bool''), st)"
    by (intro setValueTo_coerce_panic coerce_KBool_mismatch)
next
  assume "\<forall>b. src \<noteq> VBytes b"
  then show "setValueTo g src (DPtr KBytes p) st = (Panic (InterfaceConversion ''[]uint8''), st)"
    by (intro setValueTo_coerce_panic coerce_KBytes_mismatch)
next
  fix k e st'
  show "setValueTo g src (DPtr k p) st \<noteq> (Return (Some e), st')"
    by (rule setValueTo_DPtr_no_error)
qed

theorem setValueTo_incompatible_kind_panics_witness:
  "setValueTo gio0 (VString ''true'') (DPtr KBool (Some 0)) Map.empty =
     (Panic (InterfaceConversion ''bool''), Map.empty) \<and>
   setValueTo gio0 (VString ''true'') (DPtr KBytes (Some 0)) Map.empty =
     (Panic (InterfaceConversion ''[]uint8''), Map.empty) \<and>
   (\<forall>k e st'. setValueTo gio0 (VString ''true'') (DPtr k (Some 0)) Map.empty
       \<noteq> (Return (Some e), st'))"
  using setValueTo_incompatible_kind_panics [of "VString ''true''" gio0 "Some 0" Map.empty]
  by simp

text \<open>
  C10 (as stated, refuted).  A row of two fields with a single destination that is not
  a pointer: the loop returns the error of \<open>setValueTo\<close> at index 0 and never indexes
  past the end of the destinations.
\<close>

theorem saveDecodedRow_early_error_counterexample:
  "saveDecodedRow gio0 \<lparr>K = [VBool True], V = [VBool False], T = 0\<rparr> [DNonPtr ''string'']
      Map.empty =
     (Return (Some (ErrorString ''setValueTo to nonsettable string'')), Map.empty)"
  by (simp add: saveDecodedRow_def go_index_def setValueTo_def type_switch_def
      reflect_check_def)

text \<open>
  C10 (amended).  For a decoded row with more key plus value fields than destinations,
  the structured branch never returns nil; when \<open>setValueTo\<close> returns nil for each of the
  first \<open>len(decodedObjects)\<close> fields, the loop indexes the destinations at
  \<open>len(decodedObjects)\<close> and panics (index out of range), the index not being checked;
  an earlier field whose \<open>setValueTo\<close> fails ends the loop first: the callback ends with
  the error or panic of the first such field, the fields before it assigned and none
  after it.  The pipe branch never panics on an index, for any fields and destinations.
\<close>

theorem saveDecodedRow_too_many_fields:
  assumes "length dsts < length (K row) + length (V row)"
  shows "fst (saveDecodedRow g row dsts st) \<noteq> Return None \<and>
    ((\<forall>i<length dsts.
         fst (setValueTo g ((K row @ V row) ! i) (dsts ! i) Map.empty) = Return None) \<longrightarrow>
     fst (saveDecodedRow g row dsts st) =
       Panic (IndexOutOfRange (length dsts) (length dsts))) \<and>
    (\<forall>i. i < length dsts \<and>
         (\<forall>j<i. fst (setValueTo g ((K row @ V row) ! j) (dsts ! j) Map.empty) = Return None) \<and>
         fst (setValueTo g ((K row @ V row) ! i) (dsts ! i) Map.empty) \<noteq> Return None \<longrightarrow>
       saveDecodedRow g row dsts st =
         (fst (setValueTo g ((K row @ V row) ! i) (dsts ! i) Map.empty),
          snd (assign_fields g (take i (K row @ V row)) dsts 0 st))) \<and>
    (\<forall>n m. fst (saveTsv args dsts 0 st) \<noteq> Panic (IndexOutOfRange n m))"
proof (intro conjI allI impI)
  show "fst (saveDecodedRow g row dsts st) \<noteq> Return None"
    by (rule saveDecodedRow_not_ok[OF assms])
next
  assume "\<forall>i<length dsts.
         fst (setValueTo g ((K row @ V row) ! i) (dsts ! i) Map.empty) = Return None"
  then show "fst (saveDecodedRow g row dsts st) =
       Panic (IndexOutOfRange (length dsts) (length dsts))"
    by (rule saveDecodedRow_index_panic[OF assms])
next
  fix i
  assume h: "i < length dsts \<and>
         (\<forall>j<i. fst (setValueTo g ((K row @ V row) ! j) (dsts ! j) Map.empty) = Return None) \<and>
         fst (setValueTo g ((K row @ V row) ! i) (dsts ! i) Map.empty) \<noteq> Return None"
  with assms have "i < length (K row @ V row)" by simp
  with h show "saveDecodedRow g row dsts st =
         (fst (setValueTo g ((K row @ V row) ! i) (dsts ! i) Map.empty),
          snd (assign_fields g (take i (K row @ V row)) dsts 0 st))"
    by (intro saveDecodedRow_first_failure) blast+
next
  fix n m
  show "fst (saveTsv args dsts 0 st) \<noteq> Panic (IndexOutOfRange n m)"
    by (rule saveTsv_no_index_panic)
qed

theorem saveDecodedRow_too_many_fields_witness:
  "fst (saveDecodedRow gio0 \<lparr>K = [VBool True], V = [VBool False], T = 0\<rparr> [DPtr KBool (Some 0)]
      Map.empty) = Panic (IndexOutOfRange 1 1) \<and>
   saveDecodedRow gio0 \<lparr>K = [VBool True], V = [VString ''x'', VBool False], T = 0\<rparr>
      [DPtr KBool (Some 0), DNonPtr ''string''] Map.empty =
     (Return (Some (ErrorString ''setValueTo to nonsettable string'')), [0 \<mapsto> SBool True]) \<and>
   saveDecodedRow gio0 \<lparr>K = [VBool True], V = [VString ''x'', VBool False], T = 0\<rparr>
      [DPtr KBool (Some 0), DPtr KBool (Some 1)] Map.empty =
     (Panic (InterfaceConversion ''bool''), [0 \<mapsto> SBool True]) \<and>
   (\<forall>n m. fst (saveTsv [''a'', ''b''] [DPtr KBool (Some 0)] 0 Map.empty)
      \<noteq> Panic (IndexOutOfRange n m))"
proof -
  let ?row = "\<lparr>K = [VBool True], V = [VBool False], T = 0\<rparr>"
  let ?dsts = "[DPtr KBool (Some (0::nat))]"
  let ?row2 = "\<lparr>K = [VBool True], V = [VString ''x'', VBool False], T = 0\<rparr>"
  let ?dstsE = "[DPtr KBool (Some (0::nat)), DNonPtr ''string'']"
  let ?dstsP = "[DPtr KBool (Some (0::nat)), DPtr KBool (Some 1)]"
  note ev = setValueTo_def type_switch_def reflect_check_def assert_bool_def go_index_def
  have h: "length ?dsts < length (K ?row) + length (V ?row)" by simp
  have ok: "\<forall>i<length ?dsts.
         fst (setValueTo gio0 ((K ?row @ V ?row) ! i) (?dsts ! i) Map.empty) = Return None"
    by (simp add: ev)
  have a: "fst (saveDecodedRow gio0 ?row ?dsts Map.empty) = Panic (IndexOutOfRange 1 1) \<and>
     (\<forall>n m. fst (saveTsv [''a'', ''b''] ?dsts 0 Map.empty) \<noteq> Panic (IndexOutOfRange n m))"
    using saveDecodedRow_too_many_fields [OF h, of gio0 Map.empty "[''a'', ''b'']"] ok
    by simp
  have hE: "length ?dstsE < length (K ?row2) + length (V ?row2)" by simp
  have e: "saveDecodedRow gio0 ?row2 ?dstsE Map.empty =
     (Return (Some (ErrorString ''setValueTo to nonsettable string'')), [0 \<mapsto> SBool True])"
    using saveDecodedRow_too_many_fields [OF hE, of gio0 Map.empty "[]",
        THEN conjunct2, THEN conjunct2, THEN conjunct1, rule_format, of 1]
    by (simp add: ev)
  have hP: "length ?dstsP < length (K ?row2) + length (V ?row2)" by simp
  have p: "saveDecodedRow gio0 ?row2 ?dstsP Map.empty =
     (Panic (InterfaceConversion ''bool''), [0 \<mapsto> SBool True])"
    using saveDecodedRow_too_many_fields [OF hP, of gio0 Map.empty "[]",
        THEN conjunct2, THEN conjunct2, THEN conjunct1, rule_format, of 1]
    by (simp add: ev)
  from a e p show ?thesis by blast
qed

section \<open>Properties of the output aggregator\<close>

lemma Output_adds_driver_step:
  "Output d fl =
     (d, fl\<lparr>Steps := Steps fl @
            [\<lparr>Name = ''Output'', Network = AllShardToOne, InputDataset = d,
              OutputDataset = None, Instr = None, IsOnDriverSide = True\<rparr>]\<rparr>)"
  by (simp add: Output_def AddAllToOneStep_def addStep_def)

lemma agg_invI:
  assumes "spawned s \<le> n" "distinct (sent s)" "\<forall>i \<in> set (sent s). i < spawned s"
    "sent s = drained s @ map fst (errChan s)"
    "\<forall>x \<in> set (errChan s). snd x = f (fst x)"
    "consumed s \<le> n"
    "case result s of
        None \<Rightarrow> length (drained s) = consumed s \<and> (\<forall>i \<in> set (drained s). f i = None)
      | Some None \<Rightarrow> length (drained s) = n \<and> (\<forall>i \<in> set (drained s). f i = None)
      | Some (Some e) \<Rightarrow>
          drained s \<noteq> [] \<and> f (last (drained s)) = Some e \<and>
          (\<forall>i \<in> set (butlast (drained s)). f i = None)"
  shows "agg_inv f n s"
  using assms unfolding agg_inv_def by blast

lemma agg_invD:
  assumes "agg_inv f n s"
  shows "spawned s \<le> n" "distinct (sent s)" "\<forall>i \<in> set (sent s). i < spawned s"
    "sent s = drained s @ map fst (errChan s)"
    "\<forall>x \<in> set (errChan s). snd x = f (fst x)"
    "consumed s \<le> n"
    "case result s of
        None \<Rightarrow> length (drained s) = consumed s \<and> (\<forall>i \<in> set (drained s). f i = None)
      | Some None \<Rightarrow> length (drained s) = n \<and> (\<forall>i \<in> set (drained s). f i = None)
      | Some (Some e) \<Rightarrow>
          drained s \<noteq> [] \<and> f (last (drained s)) = Some e \<and>
          (\<forall>i \<in> set (butlast (drained s)). f i = None)"
  using assms unfolding agg_inv_def by blast+

lemma agg_inv_init: "agg_inv f n agg_init"
  by (simp add: agg_inv_def agg_init_def)

lemma step_Main_cases:
  assumes "step f n Main s = Some s'"
  obtains (spawn) "result s = None" "spawned s < n" "s' = s\<lparr>spawned := Suc (spawned s)\<rparr>"
  | (recv_nil) i rest where "result s = None" "\<not> spawned s < n" "consumed s < n"
      "errChan s = (i, None) # rest"
      "s' = s\<lparr>errChan := rest, consumed := Suc (consumed s), drained := drained s @ [i]\<rparr>"
  | (recv_err) i e rest where "result s = None" "\<not> spawned s < n" "consumed s < n"
      "errChan s = (i, Some e) # rest"
      "s' = s\<lparr>errChan := rest, result := Some (Some e), drained := drained s @ [i]\<rparr>"
  | (finish) "result s = None" "\<not> spawned s < n" "\<not> consumed s < n"
      "s' = s\<lparr>result := Some None\<rparr>"
  using assms by (auto split: if_splits list.splits option.splits)

lemma step_Worker_cases:
  assumes "step f n (Worker i) s = Some s'"
  obtains "i < spawned s" "i \<notin> set (sent s)" "length (errChan s) < n"
    "s' = s\<lparr>errChan := errChan s @ [(i, f i)], sent := sent s @ [i]\<rparr>"
  using assms by (auto split: if_splits)

lemma agg_inv_step:
  assumes inv: "agg_inv f n s" and "step f n g s = Some s'"
  shows "agg_inv f n s'"
proof (cases g)
  case Main
  note D = agg_invD[OF inv]
  from Main assms(2) have "step f n Main s = Some s'" by simp
  then show ?thesis
  proof (cases rule: step_Main_cases)
    case spawn
    show ?thesis
    proof (rule agg_invI)
      show "spawned s' \<le> n" using spawn by simp
      show "distinct (sent s')" using spawn D(2) by simp
      show "\<forall>i \<in> set (sent s'). i < spawned s'" using spawn D(3) by (simp add: less_Suc_eq)
      show "sent s' = drained s' @ map fst (errChan s')" using spawn D(4) by simp
      show "\<forall>x \<in> set (errChan s'). snd x = f (fst x)" using spawn D(5) by simp
      show "consumed s' \<le> n" using spawn D(6) by simp
      show "case result s' of
        None \<Rightarrow> length (drained s') = consumed s' \<and> (\<forall>i \<in> set (drained s'). f i = None)
      | Some None \<Rightarrow> length (drained s') = n \<and> (\<forall>i \<in> set (drained s'). f i = None)
      | Some (Some e) \<Rightarrow>
          drained s' \<noteq> [] \<and> f (last (drained s')) = Some e \<and>
          (\<forall>i \<in> set (butlast (drained s')). f i = None)"
        using spawn D(7) by simp
    qed
  next
    case (recv_nil i rest)
    from D(5) recv_nil(4) have fi: "f i = None" by simp
    show ?thesis
    proof (rule agg_invI)
      show "spawned s' \<le> n" using recv_nil D(1) by simp
      show "distinct (sent s')" using recv_nil D(2) by simp
      show "\<forall>i \<in> set (sent s'). i < spawned s'" using recv_nil D(3) by simp
      show "sent s' = drained s' @ map fst (errChan s')" using recv_nil D(4) by simp
      show "\<forall>x \<in> set (errChan s'). snd x = f (fst x)" using recv_nil D(5) by simp
      show "consumed s' \<le> n" using recv_nil by simp
      show "case result s' of
        None \<Rightarrow> length (drained s') = consumed s' \<and> (\<forall>i \<in> set (drained s'). f i = None)
      | Some None \<Rightarrow> length (drained s') = n \<and> (\<forall>i \<in> set (drained s'). f i = None)
      | Some (Some e) \<Rightarrow>
          drained s' \<noteq> [] \<and> f (last (drained s')) = Some e \<and>
          (\<forall>i \<in> set (butlast (drained s')). f i = None)"
        using recv_nil D(7) fi by simp
    qed
  next
    case (recv_err i e rest)
    from D(5) recv_err(4) have fi: "f i = Some e" by simp
    show ?thesis
    proof (rule agg_invI)
      show "spawned s' \<le> n" using recv_err D(1) by simp
      show "distinct (sent s')" using recv_err D(2) by simp
      show "\<forall>i \<in> set (sent s'). i < spawned s'" using recv_err D(3) by simp
      show "sent s' = drained s' @ map fst (errChan s')" using recv_err D(4) by simp
      show "\<forall>x \<in> set (errChan s'). snd x = f (fst x)" using recv_err D(5) by simp
      show "consumed s' \<le> n" using recv_err by simp
      show "case result s' of
        None \<Rightarrow> length (drained s') = consumed s' \<and> (\<forall>i \<in> set (drained s'). f i = None)
      | Some None \<Rightarrow> length (drained s') = n \<and> (\<forall>i \<in> set (drained s'). f i = None)
      | Some (Some e) \<Rightarrow>
          drained s' \<noteq> [] \<and> f (last (drained s')) = Some e \<and>
          (\<forall>i \<in> set (butlast (drained s')). f i = None)"
        using recv_err D(7) fi by (simp add: butlast_append)
    qed
  next
    case finish
    from finish(3) D(6) have cn: "consumed s = n" by simp
    show ?thesis
    proof (rule agg_invI)
      show "spawned s' \<le> n" using finish D(1) by simp
      show "distinct (sent s')" using finish D(2) by simp
      show "\<forall>i \<in> set (sent s'). i < spawned s'" using finish D(3) by simp
      show "sent s' = drained s' @ map fst (errChan s')" using finish D(4) by simp
      show "\<forall>x \<in> set (errChan s'). snd x = f (fst x)" using finish D(5) by simp
      show "consumed s' \<le> n" using finish D(6) by simp
      show "case result s' of
        None \<Rightarrow> length (drained s') = consumed s' \<and> (\<forall>i \<in> set (drained s'). f i = None)
      | Some None \<Rightarrow> length (drained s') = n \<and> (\<forall>i \<in> set (drained s'). f i = None)
      | Some (Some e) \<Rightarrow>
          drained s' \<noteq> [] \<and> f (last (drained s')) = Some e \<and>
          (\<forall>i \<in> set (butlast (drained s')). f i = None)"
        using finish D(7) cn by simp
    qed
  qed
next
  case (Worker i)
  note D = agg_invD[OF inv]
  from Worker assms(2) have "step f n (Worker i) s = Some s'" by simp
  then show ?thesis
  proof (cases rule: step_Worker_cases)
    case 1
    from 1(4) have eqs: "drained s' = drained s" "consumed s' = consumed s"
      "result s' = result s" by simp_all
    show ?thesis
    proof (rule agg_invI)
      show "spawned s' \<le> n" using 1 D(1) by simp
      show "distinct (sent s')" using 1 D(2) by simp
      show "\<forall>i \<in> set (sent s'). i < spawned s'" using 1 D(3) by simp
      show "sent s' = drained s' @ map fst (errChan s')" using 1 D(4) by simp
      show "\<forall>x \<in> set (errChan s'). snd x = f (fst x)" using 1 D(5) by simp
      show "consumed s' \<le> n" using 1 D(6) by simp
      show "case result s' of
        None \<Rightarrow> length (drained s') = consumed s' \<and> (\<forall>i \<in> set (drained s'). f i = None)
      | Some None \<Rightarrow> length (drained s') = n \<and> (\<forall>i \<in> set (drained s'). f i = None)
      | Some (Some e) \<Rightarrow>
          drained s' \<noteq> [] \<and> f (last (drained s')) = Some e \<and>
          (\<forall>i \<in> set (butlast (drained s')). f i = None)"
        using D(7) unfolding eqs .
    qed
  qed
qed

lemma agg_inv_run:
  "agg_inv f n s \<Longrightarrow> run f n gs s = Some s' \<Longrightarrow> agg_inv f n s'"
proof (induction gs arbitrary: s)
  case Nil
  then show ?case by simp
next
  case (Cons g gs)
  then show ?case by (auto split: option.splits dest: agg_inv_step)
qed

lemma sent_bounded:
  assumes "agg_inv f n s"
  shows "set (sent s) \<subseteq> {..<n}" "length (sent s) \<le> n"
proof -
  note D = agg_invD[OF assms]
  from D(1,3) show sub: "set (sent s) \<subseteq> {..<n}" by auto
  from D(2) have "length (sent s) = card (set (sent s))" by (simp add: distinct_card)
  also from sub have "\<dots> \<le> card {..<n}" by (intro card_mono) auto
  finally show "length (sent s) \<le> n" by simp
qed

lemma all_sent:
  assumes "agg_inv f n s" "length (sent s) = n"
  shows "set (sent s) = {..<n}"
proof -
  note D = agg_invD[OF assms(1)]
  from D(2) assms(2) have "card (set (sent s)) = card {..<n}" by (simp add: distinct_card)
  with sent_bounded(1)[OF assms(1)] show ?thesis by (intro card_subset_eq) auto
qed

lemma send_enabled:
  assumes "agg_inv f n s" "i < spawned s" "i \<notin> set (sent s)"
  shows "length (errChan s) < n"
proof -
  note D = agg_invD[OF assms(1)]
  from D(1) assms(2) have "i < n" by simp
  have "length (sent s) \<noteq> n"
  proof
    assume "length (sent s) = n"
    from all_sent[OF assms(1) this] \<open>i < n\<close> assms(3) show False by auto
  qed
  with sent_bounded(2)[OF assms(1)] have "length (sent s) < n" by simp
  moreover from D(4) have "length (errChan s) \<le> length (sent s)" by simp
  ultimately show ?thesis by simp
qed

lemma returned_nil_iff:
  assumes "agg_inv f n s" "result s = Some r"
  shows "r = None \<longleftrightarrow> (\<forall>i<n. f i = None)"
proof (cases r)
  case None
  note D = agg_invD[OF assms(1)]
  from D(7) assms(2) None have len: "length (drained s) = n"
    and nil: "\<forall>i \<in> set (drained s). f i = None" by simp_all
  from D(4) have "length (sent s) = length (drained s) + length (errChan s)" by simp
  with len sent_bounded(2)[OF assms(1)] have e: "errChan s = []" by simp
  with D(4) have "sent s = drained s" by simp
  with all_sent[OF assms(1)] len have "set (drained s) = {..<n}" by simp
  with nil None show ?thesis by auto
next
  case (Some e)
  note D = agg_invD[OF assms(1)]
  from D(7) assms(2) Some have ne: "drained s \<noteq> []" and l: "f (last (drained s)) = Some e"
    by simp_all
  from ne have "last (drained s) \<in> set (drained s)" by simp
  with D(4) have "last (drained s) \<in> set (sent s)" by simp
  with sent_bounded(1)[OF assms(1)] have "last (drained s) < n" by auto
  with l Some show ?thesis by auto
qed

lemma recv_enabled:
  assumes "agg_inv f n s" "result s = None" "errChan s \<noteq> []"
  shows "consumed s < n"
proof -
  note D = agg_invD[OF assms(1)]
  from D(7) assms(2) have "length (drained s) = consumed s" by simp
  moreover from D(4) have "length (sent s) = length (drained s) + length (errChan s)" by simp
  moreover from assms(3) have "0 < length (errChan s)" by simp
  ultimately show ?thesis using sent_bounded(2)[OF assms(1)] by linarith
qed

lemma failure_returned_at_once:
  assumes "agg_inv f n s" "spawned s = n" "result s = None" "errChan s = (i, Some e) # rest"
  shows "step f n Main s =
     Some (s\<lparr>errChan := rest, result := Some (Some e), drained := drained s @ [i]\<rparr>)"
proof -
  from recv_enabled[OF assms(1,3)] assms(4) have "consumed s < n" by simp
  with assms(2,3,4) show ?thesis by simp
qed

lemma can_return:
  assumes "agg_inv f n s"
  shows "\<exists>gs s'. run f n gs s = Some s' \<and> result s' \<noteq> None"
  using assms
proof (induction "(n - spawned s) + (n - length (sent s)) + (n - consumed s)"
    arbitrary: s rule: less_induct)
  case less
  note D = agg_invD[OF less.prems]
  show ?case
  proof (cases "result s")
    case (Some r)
    then have "run f n [] s = Some s \<and> result s \<noteq> None" by simp
    then show ?thesis by blast
  next
    case None
    have ext: "\<exists>gs s'. run f n gs s = Some s' \<and> result s' \<noteq> None"
      if st: "step f n g s = Some t"
        and m: "result t = None \<Longrightarrow> (n - spawned t) + (n - length (sent t)) + (n - consumed t)
            < (n - spawned s) + (n - length (sent s)) + (n - consumed s)" for g t
    proof (cases "result t")
      case (Some r)
      with st have "run f n [g] s = Some t \<and> result t \<noteq> None" by simp
      then show ?thesis by blast
    next
      case N: None
      from agg_inv_step[OF less.prems st] have it: "agg_inv f n t" .
      from less.hyps[OF m[OF N] it] obtain gs s' where
        "run f n gs t = Some s'" "result s' \<noteq> None" by blast
      with st have "run f n (g # gs) s = Some s' \<and> result s' \<noteq> None" by simp
      then show ?thesis by blast
    qed
    show ?thesis
    proof (cases "spawned s < n")
      case True
      with None have "step f n Main s = Some (s\<lparr>spawned := Suc (spawned s)\<rparr>)" by simp
      then show ?thesis by (rule ext) (use True in simp)
    next
      case sp: False
      with D(1) have spn: "spawned s = n" by simp
      show ?thesis
      proof (cases "length (sent s) < n")
        case True
        then have "set (sent s) \<noteq> {..<n}"
          using D(2) by (metis card_lessThan distinct_card less_irrefl)
        with sent_bounded(1)[OF less.prems] obtain i where i: "i < n" "i \<notin> set (sent s)"
          by auto
        with spn send_enabled[OF less.prems, of i]
        have "step f n (Worker i) s =
            Some (s\<lparr>errChan := errChan s @ [(i, f i)], sent := sent s @ [i]\<rparr>)" by simp
        then show ?thesis by (rule ext) (use True in simp)
      next
        case False
        with sent_bounded(2)[OF less.prems] have full: "length (sent s) = n" by simp
        show ?thesis
        proof (cases "consumed s < n")
          case cn: False
          with None sp have "step f n Main s = Some (s\<lparr>result := Some None\<rparr>)" by simp
          then show ?thesis by (rule ext) simp
        next
          case True
          from D(7) None have "length (drained s) = consumed s" by simp
          with D(4) full True have "errChan s \<noteq> []" by auto
          then obtain i r rest where ec: "errChan s = (i, r) # rest"
            by (cases "errChan s") auto
          show ?thesis
          proof (cases r)
            case (Some e)
            with ec None sp True have "step f n Main s =
              Some (s\<lparr>errChan := rest, result := Some (Some e), drained := drained s @ [i]\<rparr>)"
              by simp
            then show ?thesis by (rule ext) simp
          next
            case N2: None
            with ec None sp True have "step f n Main s =
              Some (s\<lparr>errChan := rest, consumed := Suc (consumed s),
                      drained := drained s @ [i]\<rparr>)"
              by simp
            then show ?thesis by (rule ext) (use True in simp)
          qed
        qed
      qed
    qed
  qed
qed

text \<open>
  C1 (as stated, refuted).  Two shards; the handler of shard 1 fails and its goroutine
  sends first, the goroutine of shard 0 has not sent yet.  The main goroutine receives
  the result of shard 1 and returns its failure; no result of shard 0 has been read.
\<close>

theorem aggregator_reads_shard_1_first_counterexample:
  "run handlerA 2 [Main, Main, Worker 1, Main] agg_init =
     Some \<lparr>spawned = 2, errChan = [], consumed = 0,
           result = Some (Some (ErrorString ''failed'')), sent = [1], drained = [1]\<rparr>"
  by (simp add: agg_init_def handlerA_def)

text \<open>
  C1 (amended).  The aggregator drains the completion results in the order in which
  the goroutines sent them on the channel (completion order, not shard index order):
  in every execution the shards whose results were read, in reading order, followed by
  the shards whose results wait in the channel, are the shards in sending order.  A
  failure that is returned is the first failure in that order: every result read before
  it was nil.
\<close>

theorem aggregator_drains_in_send_order:
  assumes "run f n gs agg_init = Some s"
  shows "sent s = drained s @ map fst (errChan s) \<and>
     (\<forall>e. result s = Some (Some e) \<longrightarrow>
        drained s \<noteq> [] \<and> f (last (drained s)) = Some e \<and>
        (\<forall>i \<in> set (butlast (drained s)). f i = None))"
proof -
  from agg_inv_run[OF agg_inv_init assms] have inv: "agg_inv f n s" .
  from agg_invD(4,7)[OF inv] show ?thesis by auto
qed

theorem aggregator_drains_in_send_order_witness:
  "\<exists>s. run handlerA 2 [Main, Main, Worker 1, Worker 0, Main] agg_init = Some s \<and>
       sent s = [1, 0] \<and> drained s = [1] \<and> map fst (errChan s) = [0] \<and>
       result s = Some (Some (ErrorString ''failed''))"
proof -
  have r: "run handlerA 2 [Main, Main, Worker 1, Worker 0, Main] agg_init =
     Some \<lparr>spawned = 2, errChan = [(0, None)], consumed = 0,
           result = Some (Some (ErrorString ''failed'')), sent = [1, 0], drained = [1]\<rparr>"
    by (simp add: agg_init_def handlerA_def)
  from aggregator_drains_in_send_order [OF r] r show ?thesis by simp
qed

text \<open>
  C3.  In every execution of the step function: if the aggregator has returned, it
  returned nil exactly when the handler returned nil on every shard; when the value at
  the head of the channel is a failure, the aggregator's next step returns that failure,
  whatever number of tasks has not sent yet; a task that has not sent yet can send
  (the channel, of capacity the number of shards, is never full for it), also after the
  aggregator has returned; and the execution can be continued to one in which the
  aggregator has returned.
\<close>

theorem aggregator_result:
  assumes "run f n gs agg_init = Some s"
  shows "(\<forall>r. result s = Some r \<longrightarrow> (r = None \<longleftrightarrow> (\<forall>i<n. f i = None))) \<and>
     (\<forall>i e rest. spawned s = n \<and> result s = None \<and> errChan s = (i, Some e) # rest \<longrightarrow>
        step f n Main s =
          Some (s\<lparr>errChan := rest, result := Some (Some e), drained := drained s @ [i]\<rparr>)) \<and>
     (\<forall>i. i < spawned s \<and> i \<notin> set (sent s) \<longrightarrow>
        step f n (Worker i) s =
          Some (s\<lparr>errChan := errChan s @ [(i, f i)], sent := sent s @ [i]\<rparr>)) \<and>
     (\<exists>gs' s'. run f n gs' s = Some s' \<and> result s' \<noteq> None)"
proof -
  from agg_inv_run[OF agg_inv_init assms] have inv: "agg_inv f n s" .
  have a: "\<forall>r. result s = Some r \<longrightarrow> (r = None \<longleftrightarrow> (\<forall>i<n. f i = None))"
    using returned_nil_iff[OF inv] by blast
  have b: "\<forall>i e rest. spawned s = n \<and> result s = None \<and> errChan s = (i, Some e) # rest \<longrightarrow>
        step f n Main s =
          Some (s\<lparr>errChan := rest, result := Some (Some e), drained := drained s @ [i]\<rparr>)"
    using failure_returned_at_once[OF inv] by blast
  have c: "\<forall>i. i < spawned s \<and> i \<notin> set (sent s) \<longrightarrow>
        step f n (Worker i) s =
          Some (s\<lparr>errChan := errChan s @ [(i, f i)], sent := sent s @ [i]\<rparr>)"
  proof (intro allI impI)
    fix i assume "i < spawned s \<and> i \<notin> set (sent s)"
    with send_enabled[OF inv, of i]
    show "step f n (Worker i) s =
          Some (s\<lparr>errChan := errChan s @ [(i, f i)], sent := sent s @ [i]\<rparr>)"
      by simp
  qed
  from a b c can_return[OF inv] show ?thesis by blast
qed

theorem aggregator_result_witness:
  "\<exists>s. run handlerA 2 [Main, Main, Worker 1] agg_init = Some s \<and>
       sent s = [1] \<and>
       step handlerA 2 Main s =
         Some (s\<lparr>errChan := [], result := Some (Some (ErrorString ''failed'')),
                 drained := [1]\<rparr>) \<and>
       step handlerA 2 (Worker 0) s =
         Some (s\<lparr>errChan := errChan s @ [(0, None)], sent := [1, 0]\<rparr>) \<and>
       (\<exists>gs' s'. run handlerA 2 gs' s = Some s' \<and> result s' \<noteq> None)"
proof -
  have r: "run handlerA 2 [Main, Main, Worker 1] agg_init =
     Some \<lparr>spawned = 2, errChan = [(1, Some (ErrorString ''failed''))], consumed = 0,
           result = None, sent = [1], drained = []\<rparr>"
    by (simp add: agg_init_def handlerA_def)
  from aggregator_result [OF r] r show ?thesis
    by (simp add: handlerA_def)
qed

end
